theory Spec2Isabelle
  imports Main "HOL-Library.Word"
begin

section \<open>The in-memory file system of hh.c\<close>

text \<open>
  A shallow embedding of \<^verbatim>\<open>src/hh.c\<close>: a pool of 16 blocks of 64 bytes, a table of
  256 inodes, and the operations \<^verbatim>\<open>fs_create_file\<close>, \<^verbatim>\<open>fs_write\<close>, \<^verbatim>\<open>fs_read\<close> and
  \<^verbatim>\<open>fs_delete\<close>. The C functions mutate the structure behind \<^verbatim>\<open>filesystem_t* fs\<close>;
  here every operation takes the structure and returns the updated one.
\<close>

subsection \<open>Constants and machine types\<close>

definition MAX_FILENAME :: nat where "MAX_FILENAME = 32"
definition MAX_FILES :: nat where "MAX_FILES = 256"
definition MAX_FILE_SIZE :: nat where "MAX_FILE_SIZE = 1024"
definition BLOCK_SIZE :: nat where "BLOCK_SIZE = 64"
definition MAX_BLOCKS :: nat where "MAX_BLOCKS = MAX_FILE_SIZE div BLOCK_SIZE"

type_synonym u8 = "8 word"
type_synonym u32 = "32 word"
type_synonym size_t = "64 word"
type_synonym time_t = int

text \<open>
  \<^verbatim>\<open>size_t\<close> is taken as 64 bits wide (LP64). \<^verbatim>\<open>block_t\<close> is a struct with the single
  member \<^verbatim>\<open>uint8_t data[BLOCK_SIZE]\<close>; it is modelled by the byte list of that array.
\<close>

type_synonym block_t = "u8 list"

subsection \<open>Structures\<close>

text \<open>
  The members \<^verbatim>\<open>size\<close> and \<^verbatim>\<open>blocks\<close> of \<^verbatim>\<open>inode_t\<close> are called \<open>size_i\<close> and
  \<open>blocks_i\<close>. The member \<^verbatim>\<open>char name[MAX_FILENAME]\<close> is modelled by the C string it
  holds (the characters before the first NUL).
\<close>

record inode_t =
  name :: string
  size_i :: u32
  blocks_i :: "u32 list"
  num_blocks :: u8
  created :: time_t
  modified :: time_t
  is_directory :: u8

record filesystem_t =
  total_blocks :: u32
  free_blocks :: u32
  total_inodes :: u32
  free_inodes :: u32
  blocks :: "block_t list"
  inodes :: "inode_t list"
  block_map :: "u8 list"
  inode_map :: "u8 list"

text \<open>
  Every failure of the C code is the return value \<^verbatim>\<open>-1\<close>. The model names the place of
  each \<^verbatim>\<open>return -1\<close> by the kind of failure it reports.
\<close>

datatype error = InvalidName | AlreadyExists | NotFound | InvalidArgument | TooLarge | NoSpace

definition c_return :: "error + int \<Rightarrow> int" where
  "c_return r = (case r of Inl e \<Rightarrow> - 1 | Inr v \<Rightarrow> v)"

subsection \<open>Construction: \<^verbatim>\<open>fs_create\<close>\<close>

text \<open>The all-zero inode that \<^verbatim>\<open>calloc\<close> and \<^verbatim>\<open>memset(inode, 0, sizeof(inode_t))\<close> produce.\<close>

definition zero_inode :: inode_t where
  "zero_inode = \<lparr> name = [], size_i = 0, blocks_i = replicate MAX_BLOCKS 0, num_blocks = 0,
     created = 0, modified = 0, is_directory = 0 \<rparr>"

text \<open>The structure \<^verbatim>\<open>fs_create\<close> builds when every allocation succeeds (lines 58-67).\<close>

definition new_filesystem :: filesystem_t where
  "new_filesystem =
     (let tb = MAX_FILE_SIZE div BLOCK_SIZE in
      \<lparr> total_blocks = of_nat tb, free_blocks = of_nat tb,
        total_inodes = of_nat MAX_FILES, free_inodes = of_nat MAX_FILES,
        blocks = replicate tb (replicate BLOCK_SIZE 0),
        inodes = replicate MAX_FILES zero_inode,
        block_map = replicate tb 0,
        inode_map = replicate MAX_FILES 0 \<rparr>)"

text \<open>
  \<^verbatim>\<open>fs_create\<close> returns \<^verbatim>\<open>NULL\<close> when \<^verbatim>\<open>malloc\<close> fails, and when one of the four
  \<^verbatim>\<open>calloc\<close> calls fails. The two flags say whether these allocations succeed.
\<close>

definition fs_create :: "bool \<Rightarrow> bool \<Rightarrow> filesystem_t option" where
  "fs_create malloc_ok calloc_ok =
     (if \<not> malloc_ok then None
      else if \<not> calloc_ok then None
      else Some new_filesystem)"

subsection \<open>Allocators: \<^verbatim>\<open>find_free_inode\<close> and \<^verbatim>\<open>find_free_block\<close>\<close>

text \<open>
  A \<^verbatim>\<open>for\<close> loop becomes a function of the loop counter. The counters stay below a
  \<^verbatim>\<open>uint32_t\<close> or \<^verbatim>\<open>uint8_t\<close> bound, so they never wrap and are natural numbers here.
  The result \<open>None\<close> is the C return value \<^verbatim>\<open>-1\<close>.
\<close>

function find_free_inode_from :: "filesystem_t \<Rightarrow> nat \<Rightarrow> filesystem_t \<times> nat option" where
  "find_free_inode_from fs i =
     (if i < unat (total_inodes fs) then
        (if inode_map fs ! i = 0 then
           (fs\<lparr> inode_map := (inode_map fs)[i := 1], free_inodes := free_inodes fs - 1 \<rparr>, Some i)
         else find_free_inode_from fs (Suc i))
      else (fs, None))"
  by pat_completeness auto
termination
  by (relation "measure (\<lambda>(fs, i). unat (total_inodes fs) - i)") auto

definition find_free_inode :: "filesystem_t \<Rightarrow> filesystem_t \<times> nat option" where
  "find_free_inode fs = find_free_inode_from fs 0"

function find_free_block_from :: "filesystem_t \<Rightarrow> nat \<Rightarrow> filesystem_t \<times> nat option" where
  "find_free_block_from fs i =
     (if i < unat (total_blocks fs) then
        (if block_map fs ! i = 0 then
           (fs\<lparr> block_map := (block_map fs)[i := 1], free_blocks := free_blocks fs - 1 \<rparr>, Some i)
         else find_free_block_from fs (Suc i))
      else (fs, None))"
  by pat_completeness auto
termination
  by (relation "measure (\<lambda>(fs, i). unat (total_blocks fs) - i)") auto

definition find_free_block :: "filesystem_t \<Rightarrow> filesystem_t \<times> nat option" where
  "find_free_block fs = find_free_block_from fs 0"

subsection \<open>Name lookup\<close>

text \<open>
  The loop that \<^verbatim>\<open>fs_create_file\<close> (lines 119-123), \<^verbatim>\<open>fs_write\<close> (144-149), \<^verbatim>\<open>fs_read\<close>
  (188-193) and \<^verbatim>\<open>fs_delete\<close> (217-222) each spell out: the first index \<open>i\<close> with
  \<^verbatim>\<open>fs->inode_map[i] && strcmp(fs->inodes[i].name, filename) == 0\<close>.
\<close>

function find_by_name_from :: "filesystem_t \<Rightarrow> string \<Rightarrow> nat \<Rightarrow> nat option" where
  "find_by_name_from fs filename i =
     (if i < unat (total_inodes fs) then
        (if inode_map fs ! i \<noteq> 0 \<and> name (inodes fs ! i) = filename then Some i
         else find_by_name_from fs filename (Suc i))
      else None)"
  by pat_completeness auto
termination
  by (relation "measure (\<lambda>(fs, filename, i). unat (total_inodes fs) - i)") auto

definition find_by_name :: "filesystem_t \<Rightarrow> string \<Rightarrow> nat option" where
  "find_by_name fs filename = find_by_name_from fs filename 0"

subsection \<open>\<^verbatim>\<open>fs_create_file\<close>\<close>

text \<open>
  A pointer argument is an \<open>option\<close>: \<open>None\<close> is \<^verbatim>\<open>NULL\<close>. The filesystem pointer itself
  is the state passed in, so its \<^verbatim>\<open>NULL\<close> check has no counterpart. \<open>now\<close> is the value
  of \<^verbatim>\<open>time(NULL)\<close>. \<^verbatim>\<open>strncpy(inode->name, filename, MAX_FILENAME - 1)\<close> stores the first
  31 characters; the last byte of the array is 0 since \<^verbatim>\<open>calloc\<close> or \<^verbatim>\<open>memset\<close>.
\<close>

definition fs_create_file ::
  "filesystem_t \<Rightarrow> string option \<Rightarrow> time_t \<Rightarrow> filesystem_t \<times> (error + int)" where
  "fs_create_file fs filename now =
     (case filename of
        None \<Rightarrow> (fs, Inl InvalidName)
      | Some fname \<Rightarrow>
          if length fname \<ge> MAX_FILENAME then (fs, Inl InvalidName)
          else (case find_by_name fs fname of
                  Some i \<Rightarrow> (fs, Inl AlreadyExists)
                | None \<Rightarrow>
                    (case find_free_inode fs of
                       (fs1, None) \<Rightarrow> (fs1, Inl NoSpace)
                     | (fs1, Some inode_num) \<Rightarrow>
                         (fs1\<lparr> inodes := (inodes fs1)[inode_num :=
                             (inodes fs1 ! inode_num)\<lparr> name := take (MAX_FILENAME - 1) fname,
                               size_i := 0, num_blocks := 0, created := now, modified := now,
                               is_directory := 0 \<rparr>] \<rparr>,
                          Inr (int inode_num)))))"

subsection \<open>\<^verbatim>\<open>memcpy\<close> on caller memory\<close>

text \<open>
  \<open>memcpy dst doff src soff n\<close> is \<^verbatim>\<open>memcpy(dst + doff, src + soff, n)\<close> where \<open>dst\<close> and
  \<open>src\<close> are the whole arrays the two pointers point into. Reading or writing outside
  an array is undefined behaviour in C: the result is \<open>None\<close>, and an operation that
  runs into it has the result \<open>None\<close> as a whole.
\<close>

definition memcpy :: "u8 list \<Rightarrow> nat \<Rightarrow> u8 list \<Rightarrow> nat \<Rightarrow> nat \<Rightarrow> u8 list option" where
  "memcpy dst doff src soff n =
     (if doff + n \<le> length dst \<and> soff + n \<le> length src
      then Some (take doff dst @ take n (drop soff src) @ drop (doff + n) dst)
      else None)"

subsection \<open>\<^verbatim>\<open>fs_write\<close>\<close>

text \<open>Lines 159-162 (and 228-231 of \<^verbatim>\<open>fs_delete\<close>): the loop that frees the inode's blocks.\<close>

function free_blocks_from :: "filesystem_t \<Rightarrow> nat \<Rightarrow> nat \<Rightarrow> filesystem_t" where
  "free_blocks_from fs inode_num i =
     (if i < unat (num_blocks (inodes fs ! inode_num)) then
        free_blocks_from
          (fs\<lparr> block_map := (block_map fs)[unat (blocks_i (inodes fs ! inode_num) ! i) := 0],
               free_blocks := free_blocks fs + 1 \<rparr>) inode_num (Suc i)
      else fs)"
  by pat_completeness auto
termination
  by (relation "measure (\<lambda>(fs, inode_num, i). unat (num_blocks (inodes fs ! inode_num)) - i)") auto

text \<open>
  Lines 165-173: the loop that allocates the new blocks and copies the data. It leaves
  with \<open>Inl NoSpace\<close> at the first allocation that fails, keeping what the earlier
  iterations did.
\<close>

function write_blocks_from ::
  "filesystem_t \<Rightarrow> nat \<Rightarrow> u8 list \<Rightarrow> size_t \<Rightarrow> u32 \<Rightarrow> nat \<Rightarrow> (filesystem_t \<times> (error + unit)) option" where
  "write_blocks_from fs inode_num data sz needed_blocks i =
     (if i < unat needed_blocks then
        (case find_free_block fs of
           (fs1, None) \<Rightarrow> Some (fs1, Inl NoSpace)
         | (fs1, Some block_num) \<Rightarrow>
             (let fs2 = fs1\<lparr> inodes := (inodes fs1)[inode_num :=
                          (inodes fs1 ! inode_num)\<lparr> blocks_i :=
                             (blocks_i (inodes fs1 ! inode_num))[i := of_nat block_num] \<rparr>] \<rparr>;
                  n = (if i = unat (needed_blocks - 1) then unat sz mod BLOCK_SIZE else BLOCK_SIZE)
              in (case memcpy (blocks fs2 ! block_num) 0 data (i * BLOCK_SIZE) n of
                    None \<Rightarrow> None
                  | Some blk \<Rightarrow>
                      write_blocks_from (fs2\<lparr> blocks := (blocks fs2)[block_num := blk] \<rparr>)
                        inode_num data sz needed_blocks (Suc i))))
      else Some (fs, Inr ()))"
  by pat_completeness auto
termination
  by (relation "measure (\<lambda>(fs, inode_num, data, sz, needed_blocks, i). unat needed_blocks - i)") auto

definition fs_write ::
  "filesystem_t \<Rightarrow> string option \<Rightarrow> u8 list option \<Rightarrow> size_t \<Rightarrow> time_t
     \<Rightarrow> (filesystem_t \<times> (error + int)) option" where
  "fs_write fs filename data sz now =
     (case (filename, data) of
        (Some fname, Some d) \<Rightarrow>
          if sz = 0 then Some (fs, Inl InvalidArgument)
          else (case find_by_name fs fname of
                  None \<Rightarrow> Some (fs, Inl NotFound)
                | Some inode_num \<Rightarrow>
                    (let needed_blocks =
                           (ucast ((sz + of_nat BLOCK_SIZE - 1) div of_nat BLOCK_SIZE) :: u32)
                     in if unat needed_blocks > MAX_BLOCKS then Some (fs, Inl TooLarge)
                        else (case write_blocks_from (free_blocks_from fs inode_num 0)
                                     inode_num d sz needed_blocks 0 of
                                None \<Rightarrow> None
                              | Some (fs1, Inl e) \<Rightarrow> Some (fs1, Inl e)
                              | Some (fs1, Inr u) \<Rightarrow>
                                  Some (fs1\<lparr> inodes := (inodes fs1)[inode_num :=
                                            (inodes fs1 ! inode_num)\<lparr> size_i := ucast sz,
                                              num_blocks := ucast needed_blocks,
                                              modified := now \<rparr>] \<rparr>,
                                        Inr (sint (ucast sz :: 32 word))))))
      | _ \<Rightarrow> Some (fs, Inl InvalidArgument))"

subsection \<open>\<^verbatim>\<open>fs_read\<close>\<close>

text \<open>Lines 200-206: the copy loop. \<open>buffer\<close> is the caller's array.\<close>

function read_blocks_from ::
  "filesystem_t \<Rightarrow> nat \<Rightarrow> size_t \<Rightarrow> u8 list \<Rightarrow> nat \<Rightarrow> u8 list option" where
  "read_blocks_from fs inode_num to_read buffer i =
     (if i < unat (num_blocks (inodes fs ! inode_num)) then
        (let block_read_size =
               (if int i = int (unat (num_blocks (inodes fs ! inode_num))) - 1
                then unat to_read mod BLOCK_SIZE else BLOCK_SIZE)
         in (case memcpy buffer (i * BLOCK_SIZE)
                    (blocks fs ! unat (blocks_i (inodes fs ! inode_num) ! i)) 0 block_read_size of
               None \<Rightarrow> None
             | Some buffer' \<Rightarrow> read_blocks_from fs inode_num to_read buffer' (Suc i)))
      else Some buffer)"
  by pat_completeness auto
termination
  by (relation "measure (\<lambda>(fs, inode_num, to_read, buffer, i).
        unat (num_blocks (inodes fs ! inode_num)) - i)") auto

text \<open>
  The result of a successful read is the buffer after the call and the returned count.
  A failing read touches nothing.
\<close>

definition fs_read ::
  "filesystem_t \<Rightarrow> string option \<Rightarrow> u8 list option \<Rightarrow> size_t \<Rightarrow> (error + u8 list \<times> int) option" where
  "fs_read fs filename buffer sz =
     (case (filename, buffer) of
        (Some fname, Some buf) \<Rightarrow>
          (case find_by_name fs fname of
             None \<Rightarrow> Some (Inl NotFound)
           | Some inode_num \<Rightarrow>
               (let inode = inodes fs ! inode_num;
                    to_read = (if sz < ucast (size_i inode) then sz else ucast (size_i inode))
                in (case read_blocks_from fs inode_num to_read buf 0 of
                      None \<Rightarrow> None
                    | Some buf' \<Rightarrow> Some (Inr (buf', sint (ucast to_read :: 32 word))))))
      | _ \<Rightarrow> Some (Inl InvalidArgument))"

subsection \<open>\<^verbatim>\<open>fs_delete\<close>\<close>

definition fs_delete :: "filesystem_t \<Rightarrow> string option \<Rightarrow> filesystem_t \<times> (error + int)" where
  "fs_delete fs filename =
     (case filename of
        None \<Rightarrow> (fs, Inl InvalidArgument)
      | Some fname \<Rightarrow>
          (case find_by_name fs fname of
             None \<Rightarrow> (fs, Inl NotFound)
           | Some inode_num \<Rightarrow>
               (let fs1 = free_blocks_from fs inode_num 0
                in (fs1\<lparr> inode_map := (inode_map fs1)[inode_num := 0],
                         free_inodes := free_inodes fs1 + 1,
                         inodes := (inodes fs1)[inode_num := zero_inode] \<rparr>,
                    Inr 0))))"

subsection \<open>Sequences of operations\<close>

datatype op =
    CreateFile "string option" time_t
  | Write "string option" "u8 list option" size_t time_t
  | Read "string option" "u8 list option" size_t
  | Delete "string option"

text \<open>One call; \<open>None\<close> when the call has undefined behaviour.\<close>

fun step :: "filesystem_t \<Rightarrow> op \<Rightarrow> filesystem_t option" where
  "step fs (CreateFile filename now) = Some (fst (fs_create_file fs filename now))"
| "step fs (Write filename data sz now) = map_option fst (fs_write fs filename data sz now)"
| "step fs (Read filename buffer sz) = map_option (\<lambda>r. fs) (fs_read fs filename buffer sz)"
| "step fs (Delete filename) = Some (fst (fs_delete fs filename))"

fun run :: "filesystem_t \<Rightarrow> op list \<Rightarrow> filesystem_t option" where
  "run fs [] = Some fs"
| "run fs (x # xs) = (case step fs x of None \<Rightarrow> None | Some fs' \<Rightarrow> run fs' xs)"

text \<open>The states a program can reach from a freshly constructed filesystem.\<close>

inductive reachable :: "filesystem_t \<Rightarrow> bool" where
  reachable_init: "fs_create malloc_ok calloc_ok = Some fs \<Longrightarrow> reachable fs"
| reachable_step: "reachable fs \<Longrightarrow> step fs x = Some fs' \<Longrightarrow> reachable fs'"

declare find_free_inode_from.simps [simp del]
declare find_free_block_from.simps [simp del]
declare find_by_name_from.simps [simp del]
declare free_blocks_from.simps [simp del]
declare write_blocks_from.simps [simp del]
declare read_blocks_from.simps [simp del]

section \<open>Bookkeeping predicates\<close>

text \<open>The number of entries of a used-map that are 0 (free).\<close>

definition count_free :: "u8 list \<Rightarrow> nat" where
  "count_free m = length (filter (\<lambda>x. x = 0) m)"

text \<open>Inode \<open>i\<close> is live: its slot is marked used.\<close>

definition live :: "filesystem_t \<Rightarrow> nat \<Rightarrow> bool" where
  "live fs i \<longleftrightarrow> i < unat (total_inodes fs) \<and> inode_map fs ! i \<noteq> 0"

text \<open>\<open>nb fs i\<close> is \<^verbatim>\<open>fs->inodes[i].num_blocks\<close>, \<open>blk fs i j\<close> is \<^verbatim>\<open>fs->inodes[i].blocks[j]\<close>.\<close>

definition nb :: "filesystem_t \<Rightarrow> nat \<Rightarrow> nat" where
  "nb fs i = unat (num_blocks (inodes fs ! i))"

definition blk :: "filesystem_t \<Rightarrow> nat \<Rightarrow> nat \<Rightarrow> nat" where
  "blk fs i j = unat (blocks_i (inodes fs ! i) ! j)"

text \<open>The block indices \<^verbatim>\<open>blocks[0 .. num_blocks-1]\<close> of inode \<open>i\<close>, in order.\<close>

definition owned_blocks :: "filesystem_t \<Rightarrow> nat \<Rightarrow> nat list" where
  "owned_blocks fs i = map (blk fs i) [0..<nb fs i]"

text \<open>Block \<open>b\<close> is among the first \<^verbatim>\<open>num_blocks\<close> entries of some live inode.\<close>

definition owned :: "filesystem_t \<Rightarrow> nat \<Rightarrow> bool" where
  "owned fs b \<longleftrightarrow> (\<exists>i j. live fs i \<and> j < nb fs i \<and> blk fs i j = b)"

text \<open>The blocks owned by the live inodes, inode by inode.\<close>

definition all_owned :: "filesystem_t \<Rightarrow> nat list" where
  "all_owned fs =
     concat (map (\<lambda>i. if inode_map fs ! i \<noteq> 0 then owned_blocks fs i else [])
       [0..<unat (total_inodes fs)])"

text \<open>The sum of \<^verbatim>\<open>num_blocks\<close> over the live inodes.\<close>

definition total_owned :: "filesystem_t \<Rightarrow> nat" where
  "total_owned fs =
     sum_list (map (\<lambda>i. if inode_map fs ! i \<noteq> 0 then nb fs i else 0) [0..<unat (total_inodes fs)])"

text \<open>Setting the map entries of a list of blocks to 0, first to last.\<close>

definition zero_at :: "nat list \<Rightarrow> u8 list \<Rightarrow> u8 list" where
  "zero_at bs m = fold (\<lambda>b m. m[b := 0]) bs m"

text \<open>The sizes of the arrays, as \<^verbatim>\<open>fs_create\<close> allocates them.\<close>

definition shape :: "filesystem_t \<Rightarrow> bool" where
  "shape fs \<longleftrightarrow>
     unat (total_blocks fs) = MAX_BLOCKS \<and> unat (total_inodes fs) = MAX_FILES \<and>
     length (blocks fs) = MAX_BLOCKS \<and> length (block_map fs) = MAX_BLOCKS \<and>
     length (inodes fs) = MAX_FILES \<and> length (inode_map fs) = MAX_FILES \<and>
     (\<forall>i < MAX_BLOCKS. length (blocks fs ! i) = BLOCK_SIZE) \<and>
     (\<forall>i < MAX_FILES. length (blocks_i (inodes fs ! i)) = MAX_BLOCKS)"

text \<open>The cached counters agree with the maps.\<close>

definition counts :: "filesystem_t \<Rightarrow> bool" where
  "counts fs \<longleftrightarrow>
     unat (free_blocks fs) = count_free (block_map fs) \<and>
     unat (free_inodes fs) = count_free (inode_map fs)"

text \<open>
  Ownership, with the number of entries that count for inode \<open>i\<close> given by \<open>c i\<close>: the
  entries are valid indices of blocks marked used, and no block occurs twice.
\<close>

definition owns_with :: "(nat \<Rightarrow> nat) \<Rightarrow> filesystem_t \<Rightarrow> bool" where
  "owns_with c fs \<longleftrightarrow>
     (\<forall>i j. live fs i \<and> j < c i \<longrightarrow>
        j < MAX_BLOCKS \<and> blk fs i j < MAX_BLOCKS \<and> block_map fs ! blk fs i j \<noteq> 0) \<and>
     (\<forall>i j i' j'. live fs i \<and> live fs i' \<and> j < c i \<and> j' < c i' \<and> blk fs i j = blk fs i' j'
        \<longrightarrow> i = i' \<and> j = j')"

definition names_ok :: "filesystem_t \<Rightarrow> bool" where
  "names_ok fs \<longleftrightarrow>
     (\<forall>i. live fs i \<longrightarrow> length (name (inodes fs ! i)) < MAX_FILENAME) \<and>
     (\<forall>i i'. live fs i \<and> live fs i' \<and> name (inodes fs ! i) = name (inodes fs ! i') \<longrightarrow> i = i')"

definition fs_inv :: "filesystem_t \<Rightarrow> bool" where
  "fs_inv fs \<longleftrightarrow> shape fs \<and> counts fs \<and> owns_with (nb fs) fs \<and> names_ok fs"

section \<open>The parts of \<^verbatim>\<open>fs_write\<close>\<close>

text \<open>
  The state after one iteration of the allocation loop of \<^verbatim>\<open>fs_write\<close> (lines 169-172)
  has stored block \<open>b\<close> as entry \<open>i\<close> of inode \<open>ino\<close> and given the block the
  contents \<open>bytes\<close>.
\<close>

definition assign_block :: "filesystem_t \<Rightarrow> nat \<Rightarrow> nat \<Rightarrow> nat \<Rightarrow> block_t \<Rightarrow> filesystem_t" where
  "assign_block fs ino i b bytes =
     fs\<lparr> inodes := (inodes fs)[ino :=
            (inodes fs ! ino)\<lparr> blocks_i := (blocks_i (inodes fs ! ino))[i := of_nat b] \<rparr>],
         blocks := (blocks fs)[b := bytes] \<rparr>"

text \<open>
  The number of leading entries of the inode's block array that the allocation loop has
  filled when it leaves with \<open>r\<close>, having been entered at index \<open>i\<close> in state \<open>fs\<close>:
  all \<open>needed\<close> ones on success, and one for every block that was free when it fails.
\<close>

definition filled :: "filesystem_t \<Rightarrow> u32 \<Rightarrow> nat \<Rightarrow> error + unit \<Rightarrow> nat" where
  "filled fs needed i r =
     (case r of Inr u \<Rightarrow> unat needed | Inl e \<Rightarrow> i + count_free (block_map fs))"

text \<open>The value of \<^verbatim>\<open>needed_blocks\<close> that \<^verbatim>\<open>fs_write\<close> computes from \<^verbatim>\<open>size\<close> (line 155).\<close>

definition needed_for :: "size_t \<Rightarrow> u32" where
  "needed_for sz = ucast ((sz + of_nat BLOCK_SIZE - 1) div of_nat BLOCK_SIZE)"

text \<open>The inode record that a successful \<^verbatim>\<open>fs_write\<close> leaves (lines 175-177).\<close>

definition finish_write :: "filesystem_t \<Rightarrow> nat \<Rightarrow> size_t \<Rightarrow> time_t \<Rightarrow> filesystem_t" where
  "finish_write fs ino sz now =
     fs\<lparr> inodes := (inodes fs)[ino :=
            (inodes fs ! ino)\<lparr> size_i := ucast sz, num_blocks := ucast (needed_for sz),
              modified := now \<rparr>] \<rparr>"

section \<open>Concrete scenarios\<close>

text \<open>A fresh filesystem in which the file \<open>f\<close> has been created (inode 0, no blocks).\<close>

definition fs_with_f :: filesystem_t where
  "fs_with_f = fst (fs_create_file new_filesystem (Some ''f'') 0)"

text \<open>The state after \<open>n\<close> bytes of value \<open>0x41\<close> have been written to \<open>f\<close>.\<close>

definition fs_f_written :: "nat \<Rightarrow> filesystem_t" where
  "fs_f_written n =
     (case fs_write fs_with_f (Some ''f'') (Some (replicate n 65)) (of_nat n) 0 of
        Some (fs, r) \<Rightarrow> fs
      | None \<Rightarrow> fs_with_f)"

text \<open>
  Two files on a fresh filesystem: \<open>a\<close> holds 100 bytes in the blocks 0 and 1, \<open>b\<close> holds
  640 bytes in the blocks 2 to 11. The blocks 12 to 15 are free.
\<close>

definition two_files_ops :: "op list" where
  "two_files_ops =
     [CreateFile (Some ''a'') 0, CreateFile (Some ''b'') 0,
      Write (Some ''a'') (Some (replicate 100 65)) 100 1,
      Write (Some ''b'') (Some (replicate 640 66)) 640 2]"

definition fs_two_files :: filesystem_t where
  "fs_two_files =
     (case run new_filesystem two_files_ops of Some fs \<Rightarrow> fs | None \<Rightarrow> new_filesystem)"

text \<open>
  Then 1000 bytes are written to \<open>a\<close>. The call needs 16 blocks, gets 6 and fails.
\<close>

definition fs_failed_write :: filesystem_t where
  "fs_failed_write =
     (case fs_write fs_two_files (Some ''a'') (Some (replicate 1000 67)) 1000 3 of
        Some (fs, r) \<Rightarrow> fs
      | None \<Rightarrow> fs_two_files)"

text \<open>Afterwards both files are deleted.\<close>

definition fs_emptied :: filesystem_t where
  "fs_emptied =
     fst (fs_delete (fst (fs_delete fs_failed_write (Some ''a''))) (Some ''b''))"

text \<open>
  A pool with no free block: \<open>a\<close> holds 10 bytes in block 0, \<open>b\<close> holds 960 bytes in the
  blocks 1 to 15.
\<close>

definition full_pool_ops :: "op list" where
  "full_pool_ops =
     [CreateFile (Some ''a'') 0, CreateFile (Some ''b'') 0,
      Write (Some ''a'') (Some (replicate 10 65)) 10 1,
      Write (Some ''b'') (Some (replicate 960 66)) 960 2]"

definition fs_full_pool :: filesystem_t where
  "fs_full_pool =
     (case run new_filesystem full_pool_ops of Some fs \<Rightarrow> fs | None \<Rightarrow> new_filesystem)"

section \<open>Basic facts\<close>

subsection \<open>The loops in closed form\<close>

lemma find_free_block_from_find:
  "find_free_block_from fs i =
     (case find (\<lambda>k. block_map fs ! k = 0) [i..<unat (total_blocks fs)] of
        None \<Rightarrow> (fs, None)
      | Some k \<Rightarrow> (fs\<lparr> block_map := (block_map fs)[k := 1], free_blocks := free_blocks fs - 1 \<rparr>, Some k))"
proof (induction fs i rule: find_free_block_from.induct)
  case (1 fs i)
  show ?case
  proof (cases "i < unat (total_blocks fs)")
    case True
    then have upt: "[i..<unat (total_blocks fs)] = i # [Suc i..<unat (total_blocks fs)]"
      by (simp add: upt_conv_Cons)
    show ?thesis
    proof (cases "block_map fs ! i = 0")
      case z: True
      with True upt show ?thesis
        by (simp add: find_free_block_from.simps [of fs i])
    next
      case nz: False
      with True upt "1.IH" show ?thesis
        by (simp add: find_free_block_from.simps [of fs i])
    qed
  next
    case False
    then show ?thesis
      by (simp add: find_free_block_from.simps [of fs i])
  qed
qed

lemma find_free_inode_from_find:
  "find_free_inode_from fs i =
     (case find (\<lambda>k. inode_map fs ! k = 0) [i..<unat (total_inodes fs)] of
        None \<Rightarrow> (fs, None)
      | Some k \<Rightarrow> (fs\<lparr> inode_map := (inode_map fs)[k := 1], free_inodes := free_inodes fs - 1 \<rparr>, Some k))"
proof (induction fs i rule: find_free_inode_from.induct)
  case (1 fs i)
  show ?case
  proof (cases "i < unat (total_inodes fs)")
    case True
    then have upt: "[i..<unat (total_inodes fs)] = i # [Suc i..<unat (total_inodes fs)]"
      by (simp add: upt_conv_Cons)
    show ?thesis
    proof (cases "inode_map fs ! i = 0")
      case z: True
      with True upt show ?thesis
        by (simp add: find_free_inode_from.simps [of fs i])
    next
      case nz: False
      with True upt "1.IH" show ?thesis
        by (simp add: find_free_inode_from.simps [of fs i])
    qed
  next
    case False
    then show ?thesis
      by (simp add: find_free_inode_from.simps [of fs i])
  qed
qed

lemma find_by_name_from_find:
  "find_by_name_from fs f i =
     find (\<lambda>k. inode_map fs ! k \<noteq> 0 \<and> name (inodes fs ! k) = f) [i..<unat (total_inodes fs)]"
proof (induction fs f i rule: find_by_name_from.induct)
  case (1 fs f i)
  show ?case
  proof (cases "i < unat (total_inodes fs)")
    case True
    then have upt: "[i..<unat (total_inodes fs)] = i # [Suc i..<unat (total_inodes fs)]"
      by (simp add: upt_conv_Cons)
    show ?thesis
    proof (cases "inode_map fs ! i \<noteq> 0 \<and> name (inodes fs ! i) = f")
      case z: True
      with True upt show ?thesis
        by (simp add: find_by_name_from.simps [of fs f i])
    next
      case nz: False
      with True upt "1.IH" show ?thesis
        by (auto simp add: find_by_name_from.simps [of fs f i])
    qed
  next
    case False
    then show ?thesis
      by (simp add: find_by_name_from.simps [of fs f i])
  qed
qed

lemma blk_frame:
  "blk (fs\<lparr> block_map := m \<rparr>) = blk fs"
  "blk (fs\<lparr> free_blocks := w \<rparr>) = blk fs"
  "blk (fs\<lparr> blocks := bs \<rparr>) = blk fs"
  "blk (fs\<lparr> inode_map := im \<rparr>) = blk fs"
  "blk (fs\<lparr> free_inodes := w \<rparr>) = blk fs"
  by (intro ext, simp add: blk_def)+

lemma nb_frame:
  "nb (fs\<lparr> block_map := m \<rparr>) = nb fs"
  "nb (fs\<lparr> free_blocks := w \<rparr>) = nb fs"
  "nb (fs\<lparr> blocks := bs \<rparr>) = nb fs"
  "nb (fs\<lparr> inode_map := im \<rparr>) = nb fs"
  "nb (fs\<lparr> free_inodes := w \<rparr>) = nb fs"
  by (intro ext, simp add: nb_def)+

lemma live_frame:
  "live (fs\<lparr> block_map := m \<rparr>) = live fs"
  "live (fs\<lparr> free_blocks := w \<rparr>) = live fs"
  "live (fs\<lparr> blocks := bs \<rparr>) = live fs"
  "live (fs\<lparr> inodes := is \<rparr>) = live fs"
  "live (fs\<lparr> free_inodes := w \<rparr>) = live fs"
  by (intro ext, simp add: live_def)+

lemma free_blocks_from_closed:
  "free_blocks_from fs ino i =
     fs\<lparr> block_map := zero_at (map (blk fs ino) [i..<nb fs ino]) (block_map fs),
         free_blocks := free_blocks fs + of_nat (nb fs ino - i) \<rparr>"
proof (induction fs ino i rule: free_blocks_from.induct)
  case (1 fs ino i)
  show ?case
  proof (cases "i < nb fs ino")
    case True
    then have upt: "[i..<nb fs ino] = i # [Suc i..<nb fs ino]"
      by (simp add: upt_conv_Cons)
    have sub: "of_nat (nb fs ino - i) = (1 :: u32) + of_nat (nb fs ino - Suc i)"
      using True by (metis Suc_diff_Suc of_nat_Suc)
    from True have c: "i < unat (num_blocks (inodes fs ! ino))" by (simp add: nb_def)
    have b: "unat (blocks_i (inodes fs ! ino) ! i) = blk fs ino i" by (simp add: blk_def)
    show ?thesis
      apply (subst free_blocks_from.simps)
      apply (simp only: c if_True "1.IH" [OF c])
      apply (simp add: upt sub zero_at_def b add.assoc blk_frame nb_frame)
      done
  next
    case False
    then show ?thesis
      by (simp add: free_blocks_from.simps [of fs ino i] nb_def zero_at_def)
  qed
qed

lemma find_upt_Some:
  "find P [0..<n] = Some k \<longleftrightarrow> k < n \<and> P k \<and> (\<forall>j<k. \<not> P j)"
  by (auto simp add: find_Some_iff)

lemma find_upt_None:
  "find P [0..<n] = None \<longleftrightarrow> (\<forall>j<n. \<not> P j)"
  by (auto simp add: find_None_iff)

lemma find_free_block_Some:
  "find_free_block fs = (fs', Some k) \<longleftrightarrow>
     k < unat (total_blocks fs) \<and> block_map fs ! k = 0 \<and> (\<forall>j<k. block_map fs ! j \<noteq> 0) \<and>
     fs' = fs\<lparr> block_map := (block_map fs)[k := 1], free_blocks := free_blocks fs - 1 \<rparr>"
proof -
  let ?P = "\<lambda>k. block_map fs ! k = 0"
  have "find ?P [0..<unat (total_blocks fs)] = Some k \<longleftrightarrow>
          k < unat (total_blocks fs) \<and> ?P k \<and> (\<forall>j<k. \<not> ?P j)"
    by (rule find_upt_Some)
  then show ?thesis
    unfolding find_free_block_def find_free_block_from_find
    by (cases "find ?P [0..<unat (total_blocks fs)]") auto
qed

lemma find_free_block_None:
  "find_free_block fs = (fs', None) \<longleftrightarrow>
     (\<forall>j < unat (total_blocks fs). block_map fs ! j \<noteq> 0) \<and> fs' = fs"
  unfolding find_free_block_def find_free_block_from_find
  by (auto simp add: find_upt_Some find_upt_None split: option.splits)

lemma find_free_inode_Some:
  "find_free_inode fs = (fs', Some k) \<longleftrightarrow>
     k < unat (total_inodes fs) \<and> inode_map fs ! k = 0 \<and> (\<forall>j<k. inode_map fs ! j \<noteq> 0) \<and>
     fs' = fs\<lparr> inode_map := (inode_map fs)[k := 1], free_inodes := free_inodes fs - 1 \<rparr>"
proof -
  let ?P = "\<lambda>k. inode_map fs ! k = 0"
  have "find ?P [0..<unat (total_inodes fs)] = Some k \<longleftrightarrow>
          k < unat (total_inodes fs) \<and> ?P k \<and> (\<forall>j<k. \<not> ?P j)"
    by (rule find_upt_Some)
  then show ?thesis
    unfolding find_free_inode_def find_free_inode_from_find
    by (cases "find ?P [0..<unat (total_inodes fs)]") auto
qed

lemma find_free_inode_None:
  "find_free_inode fs = (fs', None) \<longleftrightarrow>
     (\<forall>j < unat (total_inodes fs). inode_map fs ! j \<noteq> 0) \<and> fs' = fs"
  unfolding find_free_inode_def find_free_inode_from_find
  by (auto simp add: find_upt_Some find_upt_None split: option.splits)

lemma find_by_name_Some:
  "find_by_name fs f = Some k \<longleftrightarrow>
     live fs k \<and> name (inodes fs ! k) = f \<and> (\<forall>j<k. \<not> (live fs j \<and> name (inodes fs ! j) = f))"
  unfolding find_by_name_def find_by_name_from_find
  by (auto simp add: find_upt_Some live_def)

lemma find_by_name_None:
  "find_by_name fs f = None \<longleftrightarrow> (\<forall>j. \<not> (live fs j \<and> name (inodes fs ! j) = f))"
  unfolding find_by_name_def find_by_name_from_find
  by (auto simp add: find_upt_None live_def)

subsection \<open>Counting free entries\<close>

lemma count_free_Nil [simp]: "count_free [] = 0"
  by (simp add: count_free_def)

lemma count_free_Cons [simp]: "count_free (x # m) = (if x = 0 then Suc (count_free m) else count_free m)"
  by (simp add: count_free_def)

lemma count_free_le: "count_free m \<le> length m"
  by (simp add: count_free_def)

lemma count_free_replicate_zero [simp]: "count_free (replicate n 0) = n"
  by (induction n) simp_all

lemma count_free_set_zero:
  "i < length m \<Longrightarrow> m ! i \<noteq> 0 \<Longrightarrow> count_free (m[i := 0]) = Suc (count_free m)"
proof (induction m arbitrary: i)
  case Nil
  then show ?case by simp
next
  case (Cons x m)
  then show ?case by (cases i) simp_all
qed

lemma count_free_set_used:
  "i < length m \<Longrightarrow> m ! i = 0 \<Longrightarrow> v \<noteq> 0 \<Longrightarrow> Suc (count_free (m[i := v])) = count_free m"
proof (induction m arbitrary: i)
  case Nil
  then show ?case by simp
next
  case (Cons x m)
  then show ?case by (cases i) simp_all
qed

lemma count_free_eq_0_iff: "count_free m = 0 \<longleftrightarrow> (\<forall>i<length m. m ! i \<noteq> 0)"
  by (simp add: count_free_def filter_empty_conv all_set_conv_all_nth)

subsection \<open>Zeroing a list of map entries\<close>

lemma zero_at_Nil [simp]: "zero_at [] m = m"
  by (simp add: zero_at_def)

lemma zero_at_Cons [simp]: "zero_at (b # bs) m = zero_at bs (m[b := 0])"
  by (simp add: zero_at_def)

lemma length_zero_at [simp]: "length (zero_at bs m) = length m"
  by (induction bs arbitrary: m) simp_all

lemma nth_zero_at:
  "k < length m \<Longrightarrow> zero_at bs m ! k = (if k \<in> set bs then 0 else m ! k)"
proof (induction bs arbitrary: m)
  case Nil
  then show ?case by simp
next
  case (Cons b bs)
  then show ?case by (auto simp add: nth_list_update)
qed

lemma count_free_zero_at:
  "distinct bs \<Longrightarrow> \<forall>b \<in> set bs. b < length m \<and> m ! b \<noteq> 0 \<Longrightarrow>
     count_free (zero_at bs m) = count_free m + length bs"
proof (induction bs arbitrary: m)
  case Nil
  then show ?case by simp
next
  case (Cons b bs)
  from Cons.prems have b: "b < length m" "m ! b \<noteq> 0" by simp_all
  have "\<forall>x \<in> set bs. x < length (m[b := 0]) \<and> m[b := 0] ! x \<noteq> 0"
    using Cons.prems by (auto simp add: nth_list_update)
  with Cons.IH [of "m[b := 0]"] Cons.prems(1)
  have "count_free (zero_at bs (m[b := 0])) = count_free (m[b := 0]) + length bs"
    by simp
  with b show ?case
    by (simp add: count_free_set_zero)
qed

subsection \<open>The blocks of an inode\<close>

lemma owned_blocks_frame:
  "owned_blocks (fs\<lparr> block_map := m \<rparr>) = owned_blocks fs"
  "owned_blocks (fs\<lparr> free_blocks := w \<rparr>) = owned_blocks fs"
  by (intro ext, simp add: owned_blocks_def blk_frame nb_frame)+

lemma set_owned_blocks: "set (owned_blocks fs i) = {blk fs i j | j. j < nb fs i}"
  by (auto simp add: owned_blocks_def)

lemma length_owned_blocks [simp]: "length (owned_blocks fs i) = nb fs i"
  by (simp add: owned_blocks_def)

lemma free_blocks_from_0:
  "free_blocks_from fs ino 0 =
     fs\<lparr> block_map := zero_at (owned_blocks fs ino) (block_map fs),
         free_blocks := free_blocks fs + of_nat (nb fs ino) \<rparr>"
  by (simp add: free_blocks_from_closed owned_blocks_def)

subsection \<open>Ownership: rules, monotonicity and congruence\<close>

lemma owns_withI:
  assumes "\<And>i j. live fs i \<Longrightarrow> j < c i \<Longrightarrow>
             j < MAX_BLOCKS \<and> blk fs i j < MAX_BLOCKS \<and> block_map fs ! blk fs i j \<noteq> 0"
    and "\<And>i j i' j'. live fs i \<Longrightarrow> live fs i' \<Longrightarrow> j < c i \<Longrightarrow> j' < c i' \<Longrightarrow>
             blk fs i j = blk fs i' j' \<Longrightarrow> i = i' \<and> j = j'"
  shows "owns_with c fs"
  unfolding owns_with_def using assms by blast

lemma owns_with_used:
  "owns_with c fs \<Longrightarrow> live fs i \<Longrightarrow> j < c i \<Longrightarrow>
     j < MAX_BLOCKS \<and> blk fs i j < MAX_BLOCKS \<and> block_map fs ! blk fs i j \<noteq> 0"
  unfolding owns_with_def by blast

lemma owns_with_inj:
  "owns_with c fs \<Longrightarrow> live fs i \<Longrightarrow> live fs i' \<Longrightarrow> j < c i \<Longrightarrow> j' < c i' \<Longrightarrow>
     blk fs i j = blk fs i' j' \<Longrightarrow> i = i' \<and> j = j'"
  unfolding owns_with_def by blast

lemma owns_with_mono:
  assumes "owns_with c fs" and le: "\<And>i. live fs i \<Longrightarrow> c' i \<le> c i"
  shows "owns_with c' fs"
proof (rule owns_withI)
  fix i j assume "live fs i" "j < c' i"
  then have "j < c i" using le [of i] by simp
  with \<open>live fs i\<close> show "j < MAX_BLOCKS \<and> blk fs i j < MAX_BLOCKS \<and> block_map fs ! blk fs i j \<noteq> 0"
    by (rule owns_with_used [OF assms(1)])
next
  fix i j i' j'
  assume a: "live fs i" "live fs i'" "j < c' i" "j' < c' i'" "blk fs i j = blk fs i' j'"
  then have "j < c i" "j' < c i'" using le [of i] le [of i'] by simp_all
  with a show "i = i' \<and> j = j'"
    by (intro owns_with_inj [OF assms(1)])
qed

lemma owns_with_cong:
  assumes o: "owns_with c fs" and l: "live fs' = live fs" and m: "block_map fs' = block_map fs"
    and b: "\<And>i j. live fs i \<Longrightarrow> j < c i \<Longrightarrow> blk fs' i j = blk fs i j"
    and c: "\<And>i. live fs i \<Longrightarrow> c' i = c i"
  shows "owns_with c' fs'"
proof (rule owns_withI)
  fix i j assume "live fs' i" "j < c' i"
  then have a: "live fs i" "j < c i" using l c [of i] by simp_all
  from owns_with_used [OF o a] b [OF a] m
  show "j < MAX_BLOCKS \<and> blk fs' i j < MAX_BLOCKS \<and> block_map fs' ! blk fs' i j \<noteq> 0"
    by simp
next
  fix i j i' j'
  assume "live fs' i" "live fs' i'" "j < c' i" "j' < c' i'" and e: "blk fs' i j = blk fs' i' j'"
  then have a: "live fs i" "live fs i'" "j < c i" "j' < c i'"
    using l c [of i] c [of i'] by simp_all
  from e b [OF a(1) a(3)] b [OF a(2) a(4)] have "blk fs i j = blk fs i' j'" by simp
  with a show "i = i' \<and> j = j'"
    by (intro owns_with_inj [OF o])
qed

lemma owns_with_distinct:
  assumes o: "owns_with c fs" and l: "live fs i" and c: "c i = nb fs i"
  shows "distinct (owned_blocks fs i)"
proof -
  have "inj_on (blk fs i) {0..<nb fs i}"
  proof (rule inj_onI)
    fix j j' assume "j \<in> {0..<nb fs i}" "j' \<in> {0..<nb fs i}" "blk fs i j = blk fs i j'"
    with owns_with_inj [OF o l l, of j j'] c show "j = j'" by simp
  qed
  then show ?thesis
    by (simp add: owned_blocks_def distinct_map)
qed

subsection \<open>Counters and the fresh filesystem\<close>

lemma unat_dec: "unat (w :: 'a::len word) = Suc n \<Longrightarrow> unat (w - 1) = n"
  by (metis diff_Suc_1 unat_minus_one unat_0 nat.distinct(1))

lemma unat_add_of_nat:
  "unat (w :: u32) + n \<le> 256 \<Longrightarrow> unat (w + of_nat n) = unat w + n"
  by (simp add: unat_word_ariths unat_of_nat)

lemma unat_inc: "unat (w :: u32) < 256 \<Longrightarrow> unat (w + 1) = Suc (unat w)"
  using unat_add_of_nat [of w 1] by simp

lemma MAX_BLOCKS_16: "MAX_BLOCKS = 16"
  by (simp add: MAX_BLOCKS_def MAX_FILE_SIZE_def BLOCK_SIZE_def)

lemma shape_new: "shape new_filesystem"
  by (simp add: shape_def new_filesystem_def MAX_BLOCKS_def MAX_FILE_SIZE_def BLOCK_SIZE_def
      MAX_FILES_def zero_inode_def)

lemma counts_new: "counts new_filesystem"
  by (simp add: counts_def new_filesystem_def MAX_BLOCKS_def MAX_FILE_SIZE_def BLOCK_SIZE_def
      MAX_FILES_def)

lemma not_live_new: "\<not> live new_filesystem i"
  by (simp add: live_def new_filesystem_def MAX_FILES_def Let_def)

lemma fs_inv_new: "fs_inv new_filesystem"
  by (simp add: fs_inv_def shape_new counts_new owns_with_def names_ok_def not_live_new)

subsection \<open>\<^verbatim>\<open>fs_create_file\<close> keeps the invariant\<close>

lemma shape_lengths:
  "shape fs \<Longrightarrow> length (inode_map fs) = MAX_FILES \<and> length (inodes fs) = MAX_FILES \<and>
     length (block_map fs) = MAX_BLOCKS \<and> length (blocks fs) = MAX_BLOCKS \<and>
     unat (total_inodes fs) = MAX_FILES \<and> unat (total_blocks fs) = MAX_BLOCKS"
  by (simp add: shape_def)

lemma live_less: "shape fs \<Longrightarrow> live fs i \<Longrightarrow> i < MAX_FILES"
  by (simp add: live_def shape_def)

lemma take_inode:
  assumes inv: "fs_inv fs"
    and k: "k < unat (total_inodes fs)" "inode_map fs ! k = 0"
    and nm: "\<forall>j. \<not> (live fs j \<and> name (inodes fs ! j) = fname)"
    and len: "length fname < MAX_FILENAME"
  shows "fs_inv (fs\<lparr> inode_map := (inode_map fs)[k := 1], free_inodes := free_inodes fs - 1,
           inodes := (inodes fs)[k := (inodes fs ! k)\<lparr> name := fname, size_i := 0,
              num_blocks := 0, created := t1, modified := t2, is_directory := 0 \<rparr>] \<rparr>)"
proof -
  define fs' where "fs' = fs\<lparr> inode_map := (inode_map fs)[k := 1],
      free_inodes := free_inodes fs - 1,
      inodes := (inodes fs)[k := (inodes fs ! k)\<lparr> name := fname, size_i := 0,
         num_blocks := 0, created := t1, modified := t2, is_directory := 0 \<rparr>] \<rparr>"
  from inv have sh: "shape fs" and co: "counts fs" and ow: "owns_with (nb fs) fs"
    and na: "names_ok fs"
    by (simp_all add: fs_inv_def)
  note L = shape_lengths [OF sh]
  from k L have kl: "k < MAX_FILES" "k < length (inode_map fs)" "k < length (inodes fs)"
    by simp_all
  have live': "\<And>i. live fs' i \<longleftrightarrow> live fs i \<or> i = k"
    using kl k by (auto simp add: fs'_def live_def nth_list_update)
  have notlive: "\<not> live fs k" using k by (simp add: live_def)
  have nb': "\<And>i. nb fs' i = (if i = k then 0 else nb fs i)"
    using kl by (simp add: fs'_def nb_def nth_list_update)
  have blk': "\<And>i j. blk fs' i j = blk fs i j"
    using kl by (simp add: fs'_def blk_def nth_list_update)
  have nm': "\<And>i. name (inodes fs' ! i) = (if i = k then fname else name (inodes fs ! i))"
    using kl by (simp add: fs'_def nth_list_update)
  have bm': "block_map fs' = block_map fs"
    by (simp add: fs'_def)
  have "shape fs'"
    using sh kl by (auto simp add: fs'_def shape_def nth_list_update)
  moreover have "counts fs'"
  proof -
    from count_free_set_used [OF kl(2) k(2), of 1]
    have c: "Suc (count_free ((inode_map fs)[k := 1])) = count_free (inode_map fs)" by simp
    with co have "unat (free_inodes fs) = Suc (count_free ((inode_map fs)[k := 1]))"
      by (simp add: counts_def)
    then have "unat (free_inodes fs - 1) = count_free ((inode_map fs)[k := 1])"
      by (rule unat_dec)
    with co show ?thesis by (simp add: fs'_def counts_def)
  qed
  moreover have "owns_with (nb fs') fs'"
  proof (rule owns_withI)
    fix i j assume "live fs' i" "j < nb fs' i"
    then have "live fs i" "j < nb fs i" by (auto simp add: live' nb' split: if_splits)
    from owns_with_used [OF ow this]
    show "j < MAX_BLOCKS \<and> blk fs' i j < MAX_BLOCKS \<and> block_map fs' ! blk fs' i j \<noteq> 0"
      by (simp add: blk' bm')
  next
    fix i j i' j'
    assume "live fs' i" "live fs' i'" "j < nb fs' i" "j' < nb fs' i'"
      "blk fs' i j = blk fs' i' j'"
    then have "live fs i" "live fs i'" "j < nb fs i" "j' < nb fs i'" "blk fs i j = blk fs i' j'"
      by (auto simp add: live' nb' blk' split: if_splits)
    then show "i = i' \<and> j = j'"
      by (intro owns_with_inj [OF ow])
  qed
  moreover have "names_ok fs'"
    unfolding names_ok_def
  proof (intro conjI allI impI)
    fix i assume "live fs' i"
    with na len show "length (name (inodes fs' ! i)) < MAX_FILENAME"
      by (auto simp add: live' nm' names_ok_def)
  next
    fix i i'
    assume a: "live fs' i \<and> live fs' i' \<and> name (inodes fs' ! i) = name (inodes fs' ! i')"
    show "i = i'"
    proof (cases "i = k")
      case True
      with a nm notlive show ?thesis
        by (cases "i' = k") (auto simp add: live' nm')
    next
      case False
      with a nm notlive na show ?thesis
        by (cases "i' = k") (auto simp add: live' nm' names_ok_def)
    qed
  qed
  ultimately show ?thesis by (simp add: fs_inv_def fs'_def)
qed

lemma fs_create_file_inv:
  assumes "fs_inv fs"
  shows "fs_inv (fst (fs_create_file fs filename now))"
proof (cases filename)
  case None
  with assms show ?thesis by (simp add: fs_create_file_def)
next
  case (Some fname)
  show ?thesis
  proof (cases "MAX_FILENAME \<le> length fname")
    case True
    with Some assms show ?thesis by (simp add: fs_create_file_def)
  next
    case short: False
    show ?thesis
    proof (cases "find_by_name fs fname")
      case (Some i)
      with \<open>filename = Some fname\<close> short assms show ?thesis by (simp add: fs_create_file_def)
    next
      case None
      then have nm: "\<forall>j. \<not> (live fs j \<and> name (inodes fs ! j) = fname)"
        by (simp add: find_by_name_None)
      obtain fs1 r where f: "find_free_inode fs = (fs1, r)" by (cases "find_free_inode fs")
      show ?thesis
      proof (cases r)
        case nospace: None
        with f have "fs1 = fs" by (simp add: find_free_inode_None)
        with f nospace None \<open>filename = Some fname\<close> short assms show ?thesis
          by (simp add: fs_create_file_def)
      next
        case (Some k)
        with f have k: "k < unat (total_inodes fs)" "inode_map fs ! k = 0"
          and fs1: "fs1 = fs\<lparr> inode_map := (inode_map fs)[k := 1], free_inodes := free_inodes fs - 1 \<rparr>"
          by (simp_all add: find_free_inode_Some)
        from short have len: "length fname < MAX_FILENAME" by simp
        then have tk: "take (MAX_FILENAME - 1) fname = fname" by simp
        from assms have "k < length (inodes fs)"
          using k by (simp add: fs_inv_def shape_def)
        with take_inode [OF assms k nm len, of now now] f Some None \<open>filename = Some fname\<close> short fs1 tk
        show ?thesis
          by (simp add: fs_create_file_def)
      qed
    qed
  qed
qed

subsection \<open>Freeing an inode's blocks; \<^verbatim>\<open>fs_delete\<close> keeps the invariant\<close>

lemma free_phase:
  assumes inv: "fs_inv fs" and l: "live fs ino"
  defines "fs1 \<equiv> free_blocks_from fs ino 0"
  shows "shape fs1" and "counts fs1" and "owns_with ((nb fs)(ino := 0)) fs1"
    and "names_ok fs1"
    and "count_free (block_map fs1) = count_free (block_map fs) + nb fs ino"
    and "block_map fs1 = zero_at (owned_blocks fs ino) (block_map fs)"
    and "inodes fs1 = inodes fs" and "inode_map fs1 = inode_map fs"
    and "free_inodes fs1 = free_inodes fs" and "blocks fs1 = blocks fs"
    and "free_blocks fs1 = free_blocks fs + of_nat (nb fs ino)"
    and "live fs1 = live fs" and "nb fs1 = nb fs" and "blk fs1 = blk fs"
proof -
  from inv have sh: "shape fs" and co: "counts fs" and ow: "owns_with (nb fs) fs"
    and na: "names_ok fs"
    by (simp_all add: fs_inv_def)
  note L = shape_lengths [OF sh]
  let ?obs = "owned_blocks fs ino" and ?m = "block_map fs"
  have fs1: "fs1 = fs\<lparr> block_map := zero_at ?obs ?m,
      free_blocks := free_blocks fs + of_nat (nb fs ino) \<rparr>"
    by (simp add: fs1_def free_blocks_from_0)
  show bm: "block_map fs1 = zero_at ?obs ?m" and ino: "inodes fs1 = inodes fs"
    and im: "inode_map fs1 = inode_map fs" and "free_inodes fs1 = free_inodes fs"
    and "blocks fs1 = blocks fs" and fb: "free_blocks fs1 = free_blocks fs + of_nat (nb fs ino)"
    by (simp_all add: fs1)
  show live1: "live fs1 = live fs" and nb1: "nb fs1 = nb fs" and blk1: "blk fs1 = blk fs"
    by (intro ext, simp add: fs1 live_def nb_def blk_def)+
  show "shape fs1" using sh by (simp add: fs1 shape_def)
  show "names_ok fs1" using na by (simp add: names_ok_def live1 ino)
  have d: "distinct ?obs"
    using ow l by (rule owns_with_distinct) simp
  have u: "\<forall>b \<in> set ?obs. b < length ?m \<and> ?m ! b \<noteq> 0"
    using owns_with_used [OF ow l] L by (auto simp add: set_owned_blocks)
  from count_free_zero_at [OF d u]
  show cf: "count_free (block_map fs1) = count_free ?m + nb fs ino"
    by (simp add: bm)
  have "count_free (block_map fs1) \<le> MAX_BLOCKS"
    using count_free_le [of "block_map fs1"] L by (simp add: bm)
  with cf co have "unat (free_blocks fs) + nb fs ino \<le> 256"
    by (simp add: counts_def MAX_BLOCKS_16)
  then have "unat (free_blocks fs + of_nat (nb fs ino)) = unat (free_blocks fs) + nb fs ino"
    by (rule unat_add_of_nat)
  with cf co show "counts fs1"
    by (simp add: counts_def fb im \<open>free_inodes fs1 = free_inodes fs\<close>)
  show "owns_with ((nb fs)(ino := 0)) fs1"
  proof (rule owns_withI)
    fix i j assume a: "live fs1 i" "j < ((nb fs)(ino := 0)) i"
    then have i: "i \<noteq> ino" "live fs i" "j < nb fs i"
      by (auto simp add: live1 split: if_splits)
    from owns_with_used [OF ow i(2,3)]
    have b: "j < MAX_BLOCKS" "blk fs i j < MAX_BLOCKS" "?m ! blk fs i j \<noteq> 0" by simp_all
    have "blk fs i j \<notin> set ?obs"
    proof
      assume "blk fs i j \<in> set ?obs"
      then obtain j' where "j' < nb fs ino" "blk fs i j = blk fs ino j'"
        by (auto simp add: set_owned_blocks)
      with owns_with_inj [OF ow i(2) l i(3), of j'] i(1) show False by simp
    qed
    with b L show "j < MAX_BLOCKS \<and> blk fs1 i j < MAX_BLOCKS \<and> block_map fs1 ! blk fs1 i j \<noteq> 0"
      by (simp add: blk1 bm nth_zero_at)
  next
    fix i j i' j'
    assume "live fs1 i" "live fs1 i'" "j < ((nb fs)(ino := 0)) i" "j' < ((nb fs)(ino := 0)) i'"
      "blk fs1 i j = blk fs1 i' j'"
    then have "live fs i" "live fs i'" "j < nb fs i" "j' < nb fs i'" "blk fs i j = blk fs i' j'"
      by (auto simp add: live1 blk1 split: if_splits)
    then show "i = i' \<and> j = j'"
      by (intro owns_with_inj [OF ow])
  qed
qed

lemma fs_delete_inv:
  assumes inv: "fs_inv fs"
  shows "fs_inv (fst (fs_delete fs filename))"
proof (cases filename)
  case None
  with inv show ?thesis by (simp add: fs_delete_def)
next
  case (Some fname)
  show ?thesis
  proof (cases "find_by_name fs fname")
    case None
    with Some inv show ?thesis by (simp add: fs_delete_def)
  next
    case found: (Some ino)
    then have l: "live fs ino" by (simp add: find_by_name_Some)
    define fs1 where "fs1 = free_blocks_from fs ino 0"
    define fs' where "fs' = fs1\<lparr> inode_map := (inode_map fs1)[ino := 0],
        free_inodes := free_inodes fs1 + 1, inodes := (inodes fs1)[ino := zero_inode] \<rparr>"
    note F = free_phase [OF inv l, folded fs1_def]
    note L = shape_lengths [OF F(1)]
    from inv have na: "names_ok fs" by (simp add: fs_inv_def)
    from l have il: "ino < MAX_FILES" "inode_map fs1 ! ino \<noteq> 0"
      using live_less [of fs ino] inv by (simp_all add: fs_inv_def live_def F)
    have live1: "live fs1 = live fs" and blk1: "blk fs1 = blk fs"
      by (rule F)+
    have "\<And>i. live fs' i \<longleftrightarrow> live fs1 i \<and> i \<noteq> ino"
      using il L by (auto simp add: fs'_def live_def nth_list_update)
    then have live': "\<And>i. live fs' i \<longleftrightarrow> live fs i \<and> i \<noteq> ino"
      by (simp add: live1)
    have nb': "\<And>i. i \<noteq> ino \<Longrightarrow> nb fs' i = nb fs i"
      and blk': "\<And>i j. i \<noteq> ino \<Longrightarrow> blk fs' i j = blk fs i j"
      and nm': "\<And>i. i \<noteq> ino \<Longrightarrow> name (inodes fs' ! i) = name (inodes fs ! i)"
      by (simp_all add: fs'_def nb_def blk_def F)
    have bm': "block_map fs' = block_map fs1" by (simp add: fs'_def)
    have "shape fs'"
      using F(1) il L
      by (auto simp add: fs'_def shape_def nth_list_update zero_inode_def)
    moreover have "counts fs'"
    proof -
      from il L have "Suc (count_free (inode_map fs1)) = count_free ((inode_map fs1)[ino := 0])"
        by (simp add: count_free_set_zero)
      moreover have "count_free ((inode_map fs1)[ino := 0]) \<le> MAX_FILES"
        using count_free_le [of "(inode_map fs1)[ino := 0]"] L by simp
      ultimately have "unat (free_inodes fs1) < 256"
        "unat (free_inodes fs1 + 1) = count_free ((inode_map fs1)[ino := 0])"
        using F(2) unat_inc [of "free_inodes fs1"] by (simp_all add: counts_def MAX_FILES_def)
      with F(2) show ?thesis
        by (simp add: counts_def fs'_def)
    qed
    moreover have "owns_with (nb fs') fs'"
    proof (rule owns_withI)
      fix i j assume "live fs' i" "j < nb fs' i"
      then have i: "live fs1 i" "j < ((nb fs)(ino := 0)) i" "i \<noteq> ino"
        by (simp_all add: live' nb' live1)
      from owns_with_used [OF F(3) i(1,2)] i(3)
      show "j < MAX_BLOCKS \<and> blk fs' i j < MAX_BLOCKS \<and> block_map fs' ! blk fs' i j \<noteq> 0"
        by (simp add: blk' bm' blk1)
    next
      fix i j i' j'
      assume "live fs' i" "live fs' i'" "j < nb fs' i" "j' < nb fs' i'"
        "blk fs' i j = blk fs' i' j'"
      then have "live fs1 i" "live fs1 i'" "j < ((nb fs)(ino := 0)) i"
        "j' < ((nb fs)(ino := 0)) i'" "blk fs1 i j = blk fs1 i' j'"
        by (simp_all add: live' nb' live1 blk' blk1)
      then show "i = i' \<and> j = j'"
        by (intro owns_with_inj [OF F(3)])
    qed
    moreover have "names_ok fs'"
      unfolding names_ok_def
    proof (intro conjI allI impI)
      fix i assume "live fs' i"
      with na show "length (name (inodes fs' ! i)) < MAX_FILENAME"
        by (simp add: live' nm' names_ok_def)
    next
      fix i i'
      assume "live fs' i \<and> live fs' i' \<and> name (inodes fs' ! i) = name (inodes fs' ! i')"
      then have "live fs i \<and> live fs i' \<and> name (inodes fs ! i) = name (inodes fs ! i')"
        by (auto simp add: live' nm')
      with na show "i = i'"
        unfolding names_ok_def by blast
    qed
    ultimately have "fs_inv fs'" by (simp add: fs_inv_def)
    then show ?thesis
      using Some found by (simp add: fs_delete_def fs'_def fs1_def Let_def)
  qed
qed

subsection \<open>The allocation loop of \<^verbatim>\<open>fs_write\<close>\<close>

lemma length_memcpy: "memcpy dst doff src soff n = Some r \<Longrightarrow> length r = length dst"
  by (auto simp add: memcpy_def split: if_splits)

lemma write_blocks_from_done:
  "\<not> i < unat needed \<Longrightarrow> write_blocks_from fs ino d sz needed i = Some (fs, Inr ())"
  by (simp add: write_blocks_from.simps [of fs ino d sz needed i])

lemma write_blocks_from_nospace:
  "i < unat needed \<Longrightarrow> find_free_block fs = (fs1, None) \<Longrightarrow>
     write_blocks_from fs ino d sz needed i = Some (fs1, Inl NoSpace)"
  by (simp add: write_blocks_from.simps [of fs ino d sz needed i])

lemma write_blocks_from_step:
  "i < unat needed \<Longrightarrow> find_free_block fs = (fs1, Some b) \<Longrightarrow>
     write_blocks_from fs ino d sz needed i =
       (case memcpy (blocks fs1 ! b) 0 d (i * BLOCK_SIZE)
               (if i = unat (needed - 1) then unat sz mod BLOCK_SIZE else BLOCK_SIZE) of
          None \<Rightarrow> None
        | Some bytes \<Rightarrow> write_blocks_from (assign_block fs1 ino i b bytes) ino d sz needed (Suc i))"
  by (simp add: write_blocks_from.simps [of fs ino d sz needed i] assign_block_def Let_def
      split: option.splits)

lemma alloc_step:
  assumes sh: "shape fs" and co: "counts fs" and l: "live fs ino"
    and ow: "owns_with (c(ino := i)) fs" and i: "i < MAX_BLOCKS"
    and f: "find_free_block fs = (fs1, Some b)"
    and len: "length bytes = BLOCK_SIZE"
  defines "fs3 \<equiv> assign_block fs1 ino i b bytes"
  shows "shape fs3" and "counts fs3" and "live fs3 = live fs"
    and "owns_with (c(ino := Suc i)) fs3"
    and "Suc (count_free (block_map fs3)) = count_free (block_map fs)"
    and "block_map fs3 = (block_map fs)[b := 1]" and "b < MAX_BLOCKS" and "block_map fs ! b = 0"
    and "\<And>j. blk fs3 ino j = (if j = i then b else blk fs ino j)"
    and "\<And>i' j. i' \<noteq> ino \<Longrightarrow> blk fs3 i' j = blk fs i' j"
proof -
  note L = shape_lengths [OF sh]
  from f L have b: "b < MAX_BLOCKS" "block_map fs ! b = 0"
    and fs1: "fs1 = fs\<lparr> block_map := (block_map fs)[b := 1], free_blocks := free_blocks fs - 1 \<rparr>"
    by (simp_all add: find_free_block_Some)
  show "b < MAX_BLOCKS" "block_map fs ! b = 0" by (rule b)+
  from l sh have il: "ino < MAX_FILES" by (rule live_less [rotated])
  from sh il have bl: "length (blocks_i (inodes fs ! ino)) = MAX_BLOCKS"
    by (simp add: shape_def)
  have ub: "unat (of_nat b :: u32) = b"
    using b by (simp add: unat_of_nat MAX_BLOCKS_16)
  show bm: "block_map fs3 = (block_map fs)[b := 1]"
    by (simp add: fs3_def fs1 assign_block_def)
  show live3: "live fs3 = live fs"
    by (intro ext, simp add: fs3_def fs1 assign_block_def live_def)
  show blk_ino: "\<And>j. blk fs3 ino j = (if j = i then b else blk fs ino j)"
    using il L i bl ub
    by (simp add: fs3_def fs1 assign_block_def blk_def nth_list_update)
  show blk_other: "\<And>i' j. i' \<noteq> ino \<Longrightarrow> blk fs3 i' j = blk fs i' j"
    by (simp add: fs3_def fs1 assign_block_def blk_def)
  show "shape fs3"
    using sh il b len
    by (auto simp add: fs3_def fs1 assign_block_def shape_def nth_list_update)
  from b L have cf: "Suc (count_free ((block_map fs)[b := 1])) = count_free (block_map fs)"
    by (intro count_free_set_used) simp_all
  then show "Suc (count_free (block_map fs3)) = count_free (block_map fs)"
    by (simp add: bm)
  from cf co have "unat (free_blocks fs) = Suc (count_free ((block_map fs)[b := 1]))"
    by (simp add: counts_def)
  then have "unat (free_blocks fs - 1) = count_free ((block_map fs)[b := 1])"
    by (rule unat_dec)
  with co show "counts fs3"
    by (simp add: counts_def fs3_def fs1 assign_block_def)
  have used: "\<And>x. x < MAX_BLOCKS \<Longrightarrow> block_map fs ! x \<noteq> 0 \<Longrightarrow> block_map fs3 ! x \<noteq> 0"
    using L b by (simp add: bm nth_list_update)
  have old: "\<And>i' j. live fs i' \<Longrightarrow> j < (c(ino := i)) i' \<Longrightarrow> blk fs3 i' j = blk fs i' j"
    by (auto simp add: blk_ino blk_other split: if_splits)
  have oldb: "\<And>i' j. live fs i' \<Longrightarrow> j < (c(ino := i)) i' \<Longrightarrow> blk fs i' j \<noteq> b"
    using owns_with_used [OF ow] b(2) by metis
  show "owns_with (c(ino := Suc i)) fs3"
  proof (rule owns_withI)
    fix i' j assume a: "live fs3 i'" "j < (c(ino := Suc i)) i'"
    show "j < MAX_BLOCKS \<and> blk fs3 i' j < MAX_BLOCKS \<and> block_map fs3 ! blk fs3 i' j \<noteq> 0"
    proof (cases "i' = ino \<and> j = i")
      case True
      with i b L show ?thesis by (simp add: blk_ino bm)
    next
      case False
      with a have o: "live fs i'" "j < (c(ino := i)) i'"
        by (auto simp add: live3 split: if_splits)
      from owns_with_used [OF ow o] used old [OF o] show ?thesis by simp
    qed
  next
    fix i' j i'' j'
    assume a: "live fs3 i'" "live fs3 i''" "j < (c(ino := Suc i)) i'" "j' < (c(ino := Suc i)) i''"
      and e: "blk fs3 i' j = blk fs3 i'' j'"
    show "i' = i'' \<and> j = j'"
    proof (cases "i' = ino \<and> j = i")
      case new1: True
      show ?thesis
      proof (cases "i'' = ino \<and> j' = i")
        case True
        with new1 show ?thesis by simp
      next
        case False
        with a have o: "live fs i''" "j' < (c(ino := i)) i''"
          by (auto simp add: live3 split: if_splits)
        from e new1 old [OF o] oldb [OF o] show ?thesis by (simp add: blk_ino)
      qed
    next
      case False
      with a have o1: "live fs i'" "j < (c(ino := i)) i'"
        by (auto simp add: live3 split: if_splits)
      show ?thesis
      proof (cases "i'' = ino \<and> j' = i")
        case True
        with e old [OF o1] oldb [OF o1] show ?thesis by (simp add: blk_ino)
      next
        case False
        with a have o2: "live fs i''" "j' < (c(ino := i)) i''"
          by (auto simp add: live3 split: if_splits)
        from e old [OF o1] old [OF o2] have "blk fs i' j = blk fs i'' j'" by simp
        with o1 o2 show ?thesis by (intro owns_with_inj [OF ow])
      qed
    qed
  qed
qed

lemma nth_update_field:
  assumes "\<And>x. f (g x) = f x"
  shows "f (xs[i := g (xs ! i)] ! k) = f (xs ! k)"
proof (cases "i < length xs")
  case True
  then show ?thesis by (cases "k = i") (simp_all add: assms)
next
  case False
  then show ?thesis by (simp add: list_update_beyond)
qed

lemma assign_block_frame:
  "inode_map (assign_block fs ino i b y) = inode_map fs"
  "free_inodes (assign_block fs ino i b y) = free_inodes fs"
  "total_inodes (assign_block fs ino i b y) = total_inodes fs"
  "total_blocks (assign_block fs ino i b y) = total_blocks fs"
  "block_map (assign_block fs ino i b y) = block_map fs"
  "free_blocks (assign_block fs ino i b y) = free_blocks fs"
  "length (inodes (assign_block fs ino i b y)) = length (inodes fs)"
  by (simp_all add: assign_block_def)

lemma assign_block_fields:
  "name (inodes (assign_block fs ino i b y) ! k) = name (inodes fs ! k)"
  "size_i (inodes (assign_block fs ino i b y) ! k) = size_i (inodes fs ! k)"
  "num_blocks (inodes (assign_block fs ino i b y) ! k) = num_blocks (inodes fs ! k)"
proof -
  let ?g = "\<lambda>x. x\<lparr> blocks_i := (blocks_i (inodes fs ! ino))[i := of_nat b] \<rparr>"
  have e: "inodes (assign_block fs ino i b y) = (inodes fs)[ino := ?g (inodes fs ! ino)]"
    by (simp add: assign_block_def)
  show "name (inodes (assign_block fs ino i b y) ! k) = name (inodes fs ! k)"
    unfolding e by (rule nth_update_field) simp
  show "size_i (inodes (assign_block fs ino i b y) ! k) = size_i (inodes fs ! k)"
    unfolding e by (rule nth_update_field) simp
  show "num_blocks (inodes (assign_block fs ino i b y) ! k) = num_blocks (inodes fs ! k)"
    unfolding e by (rule nth_update_field) simp
qed

lemma find_free_block_frame:
  assumes "find_free_block fs = (fs1, r)"
  shows "inodes fs1 = inodes fs" "inode_map fs1 = inode_map fs" "free_inodes fs1 = free_inodes fs"
    "total_inodes fs1 = total_inodes fs" "total_blocks fs1 = total_blocks fs"
    "blocks fs1 = blocks fs"
proof -
  have "fs1 = fs \<or> (\<exists>m w. fs1 = fs\<lparr> block_map := m, free_blocks := w \<rparr>)"
    using assms by (cases r) (auto simp add: find_free_block_Some find_free_block_None)
  then show "inodes fs1 = inodes fs" "inode_map fs1 = inode_map fs"
    "free_inodes fs1 = free_inodes fs" "total_inodes fs1 = total_inodes fs"
    "total_blocks fs1 = total_blocks fs" "blocks fs1 = blocks fs"
    by auto
qed

lemma write_blocks_from_frame:
  "write_blocks_from fs ino d sz needed i = Some (fs', r) \<Longrightarrow>
     inode_map fs' = inode_map fs \<and> free_inodes fs' = free_inodes fs \<and>
     total_inodes fs' = total_inodes fs \<and> total_blocks fs' = total_blocks fs \<and>
     length (inodes fs') = length (inodes fs) \<and>
     (\<forall>k. name (inodes fs' ! k) = name (inodes fs ! k) \<and>
          size_i (inodes fs' ! k) = size_i (inodes fs ! k) \<and>
          num_blocks (inodes fs' ! k) = num_blocks (inodes fs ! k))"
proof (induction "unat needed - i" arbitrary: fs i)
  case 0
  then have "\<not> i < unat needed" by simp
  from write_blocks_from_done [OF this] "0.prems" show ?case by simp
next
  case (Suc n)
  then have i: "i < unat needed" by simp
  obtain fs1 rb where f: "find_free_block fs = (fs1, rb)" by (cases "find_free_block fs")
  note F = find_free_block_frame [OF f]
  show ?case
  proof (cases rb)
    case None
    with write_blocks_from_nospace [OF i] f Suc.prems have "fs' = fs1" by simp
    with F show ?thesis by simp
  next
    case (Some b)
    from write_blocks_from_step [OF i, of fs fs1 b] f Some Suc.prems
    obtain bytes where
      w: "write_blocks_from (assign_block fs1 ino i b bytes) ino d sz needed (Suc i) = Some (fs', r)"
      by (auto split: option.splits)
    from Suc.hyps(2) i have "n = unat needed - Suc i" by simp
    from Suc.hyps(1) [OF this w] F show ?thesis
      by (simp add: assign_block_frame assign_block_fields)
  qed
qed

lemma filled_step:
  "Suc (count_free m3) = count_free (block_map fs) \<Longrightarrow> block_map fs3 = m3 \<Longrightarrow>
     filled fs3 needed (Suc i) r = filled fs needed i r"
  by (cases r) (auto simp add: filled_def)

lemma write_blocks_from_inv:
  assumes "write_blocks_from fs ino d sz needed i = Some (fs', r)"
    and "shape fs" and "counts fs" and "live fs ino" and "owns_with (c(ino := i)) fs"
    and "unat needed \<le> MAX_BLOCKS" and "i \<le> unat needed"
  shows "shape fs' \<and> counts fs' \<and>
     owns_with (c(ino := filled fs needed i r)) fs' \<and>
     i \<le> filled fs needed i r \<and> filled fs needed i r \<le> unat needed \<and>
     (\<forall>x < MAX_BLOCKS. block_map fs ! x \<noteq> 0 \<longrightarrow> block_map fs' ! x \<noteq> 0) \<and>
     (\<forall>j. i \<le> j \<and> j < filled fs needed i r \<longrightarrow> block_map fs ! blk fs' ino j = 0) \<and>
     (\<forall>j < i. blk fs' ino j = blk fs ino j) \<and>
     (\<forall>i' j. i' \<noteq> ino \<longrightarrow> blk fs' i' j = blk fs i' j) \<and>
     (\<forall>e. r = Inl e \<longrightarrow> e = NoSpace \<and> count_free (block_map fs') = 0 \<and>
          filled fs needed i r < unat needed)"
  using assms
proof (induction "unat needed - i" arbitrary: fs i)
  case 0
  then have ni: "\<not> i < unat needed" and ie: "i = unat needed" by simp_all
  from write_blocks_from_done [OF ni, of fs ino d sz] "0.prems"(1)
  have res: "fs' = fs" "r = Inr ()" by simp_all
  from "0.prems"(2-5) show ?case
    unfolding res ie by (auto simp add: filled_def)
next
  case (Suc n)
  then have i: "i < unat needed" "i < MAX_BLOCKS" by simp_all
  note L = shape_lengths [OF \<open>shape fs\<close>]
  obtain fs1 rb where f: "find_free_block fs = (fs1, rb)" by (cases "find_free_block fs")
  show ?case
  proof (cases rb)
    case None
    with write_blocks_from_nospace [OF i(1)] f Suc.prems(1)
    have res: "fs' = fs1" "r = Inl NoSpace" by simp_all
    from f None L have fs1: "fs1 = fs" and full: "\<forall>j < length (block_map fs). block_map fs ! j \<noteq> 0"
      by (simp_all add: find_free_block_None)
    from full have z: "count_free (block_map fs) = 0"
      by (simp add: count_free_eq_0_iff)
    from Suc.prems(2-5) z i show ?thesis
      unfolding res fs1 by (auto simp add: filled_def)
  next
    case (Some b)
    from write_blocks_from_step [OF i(1), of fs fs1 b] f Some Suc.prems(1)
    obtain bytes where
      m: "memcpy (blocks fs1 ! b) 0 d (i * BLOCK_SIZE)
            (if i = unat (needed - 1) then unat sz mod BLOCK_SIZE else BLOCK_SIZE) = Some bytes"
      and w: "write_blocks_from (assign_block fs1 ino i b bytes) ino d sz needed (Suc i) = Some (fs', r)"
      by (auto split: option.splits)
    from f Some have f': "find_free_block fs = (fs1, Some b)" by simp
    from f' L have b: "b < MAX_BLOCKS" by (simp add: find_free_block_Some)
    from find_free_block_frame [OF f] length_memcpy [OF m] \<open>shape fs\<close> b
    have len: "length bytes = BLOCK_SIZE" by (simp add: shape_def)
    define fs3 where "fs3 = assign_block fs1 ino i b bytes"
    note S = alloc_step [OF Suc.prems(2-5) i(2) f' len, folded fs3_def]
    have ow3: "owns_with (c(ino := Suc i)) fs3" by (rule S)
    from Suc.hyps(2) i have n: "n = unat needed - Suc i" by simp
    have fl: "filled fs3 needed (Suc i) r = filled fs needed i r"
      using S(5) by (rule filled_step) simp
    from S(3) \<open>live fs ino\<close> have l3: "live fs3 ino" by simp
    from i have si: "Suc i \<le> unat needed" by simp
    from Suc.hyps(1) [OF n w [folded fs3_def] S(1) S(2) l3 ow3 Suc.prems(6) si, unfolded fl]
    have IH1: "shape fs'" "counts fs'" "owns_with (c(ino := filled fs needed i r)) fs'"
      and IH2: "Suc i \<le> filled fs needed i r" "filled fs needed i r \<le> unat needed"
      and IH3: "\<forall>x < MAX_BLOCKS. block_map fs3 ! x \<noteq> 0 \<longrightarrow> block_map fs' ! x \<noteq> 0"
      and IH4: "\<forall>j. Suc i \<le> j \<and> j < filled fs needed i r \<longrightarrow> block_map fs3 ! blk fs' ino j = 0"
      and IH5: "\<forall>j < Suc i. blk fs' ino j = blk fs3 ino j"
      and IH6: "\<forall>i' j. i' \<noteq> ino \<longrightarrow> blk fs' i' j = blk fs3 i' j"
      and IH7: "\<forall>e. r = Inl e \<longrightarrow> e = NoSpace \<and> count_free (block_map fs') = 0 \<and>
          filled fs needed i r < unat needed"
      by simp_all
    have used: "\<forall>x < MAX_BLOCKS. block_map fs ! x \<noteq> 0 \<longrightarrow> block_map fs' ! x \<noteq> 0"
    proof (intro allI impI)
      fix x assume x: "x < MAX_BLOCKS" "block_map fs ! x \<noteq> 0"
      with L b have "block_map fs3 ! x \<noteq> 0" by (simp add: S(6) nth_list_update)
      with IH3 x(1) show "block_map fs' ! x \<noteq> 0" by simp
    qed
    have fresh: "\<forall>j. i \<le> j \<and> j < filled fs needed i r \<longrightarrow> block_map fs ! blk fs' ino j = 0"
    proof (intro allI impI)
      fix j assume j: "i \<le> j \<and> j < filled fs needed i r"
      show "block_map fs ! blk fs' ino j = 0"
      proof (cases "j = i")
        case True
        from IH5 have "blk fs' ino i = blk fs3 ino i" by simp
        with S(9) [of i] S(8) True show ?thesis by simp
      next
        case False
        with j IH4 have z: "block_map fs3 ! blk fs' ino j = 0" by simp
        show ?thesis
        proof (cases "blk fs' ino j = b")
          case True
          with z b L show ?thesis by (simp add: S(6))
        next
          case False
          with z show ?thesis by (simp add: S(6))
        qed
      qed
    qed
    have old: "\<forall>j < i. blk fs' ino j = blk fs ino j"
      using IH5 S(9) by simp
    have other: "\<forall>i' j. i' \<noteq> ino \<longrightarrow> blk fs' i' j = blk fs i' j"
      using IH6 S(10) by simp
    from IH2 have "i \<le> filled fs needed i r" by simp
    with IH1 IH2(2) IH7 used fresh old other show ?thesis
      by (intro conjI) assumption+
  qed
qed

subsection \<open>\<^verbatim>\<open>fs_write\<close> as a whole\<close>

lemma fs_write_unfold:
  assumes "find_by_name fs fname = Some ino" and "sz \<noteq> 0"
    and "unat (needed_for sz) \<le> MAX_BLOCKS"
  shows "fs_write fs (Some fname) (Some d) sz now =
     (case write_blocks_from (free_blocks_from fs ino 0) ino d sz (needed_for sz) 0 of
        None \<Rightarrow> None
      | Some (fs2, Inl e) \<Rightarrow> Some (fs2, Inl e)
      | Some (fs2, Inr u) \<Rightarrow> Some (finish_write fs2 ino sz now, Inr (sint (ucast sz :: 32 word))))"
  using assms
  by (simp add: fs_write_def needed_for_def finish_write_def Let_def not_less [symmetric]
      split: option.splits prod.splits sum.splits)

lemma fs_write_early:
  assumes "fs_write fs filename data sz now = Some (fs', r)"
    and "filename = None \<or> data = None \<or> sz = 0 \<or>
         (\<exists>fname. filename = Some fname \<and> find_by_name fs fname = None) \<or>
         MAX_BLOCKS < unat (needed_for sz)"
  shows "fs' = fs \<and> (\<exists>e. r = Inl e \<and> e \<noteq> NoSpace)"
  using assms
  by (auto simp add: fs_write_def needed_for_def Let_def split: option.splits if_splits)

lemma finish_write_frame:
  "inode_map (finish_write fs ino sz now) = inode_map fs"
  "free_inodes (finish_write fs ino sz now) = free_inodes fs"
  "total_inodes (finish_write fs ino sz now) = total_inodes fs"
  "total_blocks (finish_write fs ino sz now) = total_blocks fs"
  "block_map (finish_write fs ino sz now) = block_map fs"
  "free_blocks (finish_write fs ino sz now) = free_blocks fs"
  "blocks (finish_write fs ino sz now) = blocks fs"
  "length (inodes (finish_write fs ino sz now)) = length (inodes fs)"
  "live (finish_write fs ino sz now) = live fs"
  by (simp_all add: finish_write_def live_def fun_eq_iff)

lemma finish_write_fields:
  "name (inodes (finish_write fs ino sz now) ! k) = name (inodes fs ! k)"
  "blocks_i (inodes (finish_write fs ino sz now) ! k) = blocks_i (inodes fs ! k)"
  "blk (finish_write fs ino sz now) = blk fs"
proof -
  let ?g = "\<lambda>x. x\<lparr> size_i := ucast sz, num_blocks := ucast (needed_for sz), modified := now \<rparr>"
  have e: "inodes (finish_write fs ino sz now) = (inodes fs)[ino := ?g (inodes fs ! ino)]"
    by (simp add: finish_write_def)
  show "name (inodes (finish_write fs ino sz now) ! k) = name (inodes fs ! k)"
    unfolding e by (rule nth_update_field) simp
  show b: "\<And>k. blocks_i (inodes (finish_write fs ino sz now) ! k) = blocks_i (inodes fs ! k)"
    unfolding e by (rule nth_update_field) simp
  show "blk (finish_write fs ino sz now) = blk fs"
    by (simp add: fun_eq_iff blk_def b)
qed

lemma nb_finish_write:
  "ino < length (inodes fs) \<Longrightarrow> unat (needed_for sz) \<le> MAX_BLOCKS \<Longrightarrow>
     nb (finish_write fs ino sz now) = (nb fs)(ino := unat (needed_for sz))"
proof -
  assume i: "ino < length (inodes fs)" and n: "unat (needed_for sz) \<le> MAX_BLOCKS"
  have "unat (ucast (needed_for sz) :: u8) = unat (needed_for sz)"
    using n by (simp add: unsigned_ucast_eq take_bit_nat_eq_self MAX_BLOCKS_16)
  with i show ?thesis
    by (auto simp add: fun_eq_iff finish_write_def nb_def nth_list_update)
qed

lemma size_finish_write:
  "ino < length (inodes fs) \<Longrightarrow> size_i (inodes (finish_write fs ino sz now) ! ino) = ucast sz"
  by (simp add: finish_write_def)

lemma fs_write_run:
  assumes inv: "fs_inv fs"
    and w: "fs_write fs (Some fname) (Some d) sz now = Some (fs', r)"
    and found: "find_by_name fs fname = Some ino" and nz: "sz \<noteq> 0"
    and fit: "unat (needed_for sz) \<le> MAX_BLOCKS"
  defines "fs1 \<equiv> free_blocks_from fs ino 0"
  defines "k \<equiv> (case r of Inr v \<Rightarrow> unat (needed_for sz)
                  | Inl e \<Rightarrow> count_free (block_map fs) + nb fs ino)"
  shows "shape fs'" and "counts fs'" and "names_ok fs'" and "live fs' = live fs"
    and "owns_with ((nb fs)(ino := k)) fs'"
    and "nb fs' = (nb fs)(ino := (case r of Inr v \<Rightarrow> unat (needed_for sz) | Inl e \<Rightarrow> nb fs ino))"
    and "nb fs' ino \<le> k" and "k \<le> unat (needed_for sz)"
    and "\<forall>x < MAX_BLOCKS. block_map fs1 ! x \<noteq> 0 \<longrightarrow> block_map fs' ! x \<noteq> 0"
    and "\<forall>j < k. block_map fs1 ! blk fs' ino j = 0"
    and "\<forall>i' j. i' \<noteq> ino \<longrightarrow> blk fs' i' j = blk fs i' j"
    and "\<forall>i. name (inodes fs' ! i) = name (inodes fs ! i)"
    and "\<forall>e. r = Inl e \<longrightarrow> e = NoSpace \<and> count_free (block_map fs') = 0 \<and> k < unat (needed_for sz)"
    and "\<forall>v. r = Inr v \<longrightarrow> v = sint (ucast sz :: 32 word) \<and> size_i (inodes fs' ! ino) = ucast sz"
proof -
  from found have l: "live fs ino" by (simp add: find_by_name_Some)
  note F = free_phase [OF inv l, folded fs1_def]
  from inv have sh: "shape fs" by (simp add: fs_inv_def)
  from l sh have il: "ino < MAX_FILES" by (rule live_less [rotated])
  from F(12) l have l1: "live fs1 ino" by simp
  have ow1: "owns_with (((nb fs)(ino := 0))(ino := 0)) fs1" using F(3) by simp
  from w fs_write_unfold [OF found nz fit, of d now]
  obtain fs2 rl where
    loop: "write_blocks_from fs1 ino d sz (needed_for sz) 0 = Some (fs2, rl)"
    and res: "(\<exists>e. rl = Inl e \<and> fs' = fs2 \<and> r = Inl e) \<or>
              (rl = Inr () \<and> fs' = finish_write fs2 ino sz now \<and> r = Inr (sint (ucast sz :: 32 word)))"
    by (auto simp add: fs1_def split: option.splits sum.splits)
  from res have k: "filled fs1 (needed_for sz) 0 rl = k"
    by (auto simp add: filled_def k_def F(5))
  from write_blocks_from_inv [OF loop F(1) F(2) l1 ow1 fit, unfolded k]
  have W1: "shape fs2" "counts fs2" "owns_with ((nb fs)(ino := k)) fs2"
    and W2: "k \<le> unat (needed_for sz)"
    and W3: "\<forall>x < MAX_BLOCKS. block_map fs1 ! x \<noteq> 0 \<longrightarrow> block_map fs2 ! x \<noteq> 0"
    and W4: "\<forall>j. j < k \<longrightarrow> block_map fs1 ! blk fs2 ino j = 0"
    and W5: "\<forall>i' j. i' \<noteq> ino \<longrightarrow> blk fs2 i' j = blk fs1 i' j"
    and W6: "\<forall>e. rl = Inl e \<longrightarrow> e = NoSpace \<and> count_free (block_map fs2) = 0 \<and>
          k < unat (needed_for sz)"
    by simp_all
  from write_blocks_from_frame [OF loop]
  have R: "inode_map fs2 = inode_map fs1" "free_inodes fs2 = free_inodes fs1"
    "total_inodes fs2 = total_inodes fs1" "length (inodes fs2) = length (inodes fs1)"
    "\<And>i. name (inodes fs2 ! i) = name (inodes fs1 ! i)"
    "\<And>i. num_blocks (inodes fs2 ! i) = num_blocks (inodes fs1 ! i)"
    by simp_all
  have live2: "live fs2 = live fs"
    using R(1,3) F(12) by (simp add: fun_eq_iff live_def)
  have nb2: "nb fs2 = nb fs"
    using R(6) F(13) by (simp add: fun_eq_iff nb_def)
  have nm2: "\<And>i. name (inodes fs2 ! i) = name (inodes fs ! i)"
    using R(5) F(7) by simp
  have il2: "ino < length (inodes fs2)"
    using il R(4) F(7) shape_lengths [OF sh] by simp
  from inv have na: "names_ok fs" by (simp add: fs_inv_def)
  show "k \<le> unat (needed_for sz)" by (rule W2)
  have fs'_cases: "fs' = fs2 \<or> fs' = finish_write fs2 ino sz now"
    using res by auto
  have bm': "block_map fs' = block_map fs2" and blk': "blk fs' = blk fs2"
    and live': "live fs' = live fs2"
    and nm': "\<And>i. name (inodes fs' ! i) = name (inodes fs2 ! i)"
    using fs'_cases by (auto simp add: finish_write_frame finish_write_fields)
  show "shape fs'"
    using fs'_cases W1(1) il2
    by (auto simp add: shape_def finish_write_frame finish_write_fields)
  show "counts fs'"
    using fs'_cases W1(2) by (auto simp add: counts_def finish_write_frame)
  show "live fs' = live fs"
    by (simp add: live' live2)
  show "names_ok fs'"
    using na by (simp add: names_ok_def live' live2 nm' nm2)
  show "owns_with ((nb fs)(ino := k)) fs'"
    using W1(3) by (rule owns_with_cong) (simp_all add: live' bm' blk')
  show nb': "nb fs' = (nb fs)(ino := (case r of Inr v \<Rightarrow> unat (needed_for sz) | Inl e \<Rightarrow> nb fs ino))"
    using res il2 fit by (auto simp add: nb_finish_write nb2)
  show "nb fs' ino \<le> k"
    unfolding nb' k_def by (cases r) simp_all
  show "\<forall>x < MAX_BLOCKS. block_map fs1 ! x \<noteq> 0 \<longrightarrow> block_map fs' ! x \<noteq> 0"
    using W3 by (simp add: bm')
  show "\<forall>j < k. block_map fs1 ! blk fs' ino j = 0"
    using W4 by (simp add: blk')
  show "\<forall>i' j. i' \<noteq> ino \<longrightarrow> blk fs' i' j = blk fs i' j"
    using W5 F(14) by (simp add: blk')
  show "\<forall>i. name (inodes fs' ! i) = name (inodes fs ! i)"
    by (simp add: nm' nm2)
  show "\<forall>e. r = Inl e \<longrightarrow> e = NoSpace \<and> count_free (block_map fs') = 0 \<and> k < unat (needed_for sz)"
    using res W6 by auto
  show "\<forall>v. r = Inr v \<longrightarrow> v = sint (ucast sz :: 32 word) \<and> size_i (inodes fs' ! ino) = ucast sz"
    using res il2 by (auto simp add: size_finish_write)
qed

subsection \<open>Every reachable state satisfies the invariant\<close>

lemma fs_write_dichotomy:
  assumes "fs_write fs filename data sz now = Some (fs', r)"
  obtains (early) "fs' = fs" "\<exists>e. r = Inl e \<and> e \<noteq> NoSpace"
  | (run) fname d ino where "filename = Some fname" "data = Some d" "sz \<noteq> 0"
      "find_by_name fs fname = Some ino" "unat (needed_for sz) \<le> MAX_BLOCKS"
proof (cases "filename = None \<or> data = None \<or> sz = 0 \<or>
         (\<exists>fname. filename = Some fname \<and> find_by_name fs fname = None) \<or>
         MAX_BLOCKS < unat (needed_for sz)")
  case True
  from fs_write_early [OF assms True] show ?thesis by (intro early) simp_all
next
  case False
  then obtain fname d ino where "filename = Some fname" "data = Some d" "sz \<noteq> 0"
      "find_by_name fs fname = Some ino" "unat (needed_for sz) \<le> MAX_BLOCKS"
    by (cases filename; cases data) auto
  then show ?thesis by (rule run)
qed

lemma fs_write_inv:
  assumes inv: "fs_inv fs" and w: "fs_write fs filename data sz now = Some (fs', r)"
  shows "fs_inv fs'"
  using w
proof (cases rule: fs_write_dichotomy)
  case early
  with inv show ?thesis by simp
next
  case (run fname d ino)
  note R = fs_write_run [OF inv w [unfolded run(1,2)] run(4,3,5)]
  have "owns_with (nb fs') fs'"
    using R(5)
  proof (rule owns_with_mono)
    fix i show "nb fs' i \<le> ((nb fs)(ino := case r of
        Inl e \<Rightarrow> count_free (block_map fs) + nb fs ino | Inr v \<Rightarrow> unat (needed_for sz))) i"
      using R(7) by (cases "i = ino") (simp_all add: R(6))
  qed
  with R(1-3) show ?thesis by (simp add: fs_inv_def)
qed

lemma step_inv: "fs_inv fs \<Longrightarrow> step fs x = Some fs' \<Longrightarrow> fs_inv fs'"
proof (cases x)
  case (CreateFile f t)
  assume "fs_inv fs" "step fs x = Some fs'"
  with CreateFile fs_create_file_inv [of fs f t] show ?thesis by auto
next
  case (Write f d sz t)
  assume "fs_inv fs" "step fs x = Some fs'"
  with Write fs_write_inv [of fs f d sz t fs'] show ?thesis by auto
next
  case (Read f b sz)
  assume "fs_inv fs" "step fs x = Some fs'"
  with Read show ?thesis by auto
next
  case (Delete f)
  assume "fs_inv fs" "step fs x = Some fs'"
  with Delete fs_delete_inv [of fs f] show ?thesis by auto
qed

lemma reachable_inv: "reachable fs \<Longrightarrow> fs_inv fs"
proof (induction rule: reachable.induct)
  case (reachable_init malloc_ok calloc_ok fs)
  then have "fs = new_filesystem" by (simp add: fs_create_def split: if_splits)
  then show ?case by (simp add: fs_inv_new)
next
  case (reachable_step fs x fs')
  then show ?case by (auto intro: step_inv)
qed

lemma run_inv: "fs_inv fs \<Longrightarrow> run fs xs = Some fs' \<Longrightarrow> fs_inv fs'"
proof (induction xs arbitrary: fs)
  case Nil
  then show ?case by simp
next
  case (Cons x xs)
  then show ?case by (auto split: option.splits dest: step_inv)
qed

lemma run_reachable: "reachable fs \<Longrightarrow> run fs xs = Some fs' \<Longrightarrow> reachable fs'"
proof (induction xs arbitrary: fs)
  case Nil
  then show ?case by simp
next
  case (Cons x xs)
  then show ?case by (auto split: option.splits intro: reachable_step)
qed

subsection \<open>Counting owned blocks\<close>

lemma total_owned_card:
  "total_owned fs = card (SIGMA i:{i. live fs i}. {0..<nb fs i})"
proof -
  let ?n = "unat (total_inodes fs)"
  let ?B = "\<lambda>i. if inode_map fs ! i \<noteq> 0 then {0..<nb fs i} else {}"
  have "total_owned fs = (\<Sum>i\<in>{0..<?n}. card (?B i))"
    unfolding total_owned_def interv_sum_list_conv_sum_set_nat
    by (rule sum.cong) simp_all
  also have "\<dots> = card (SIGMA i:{0..<?n}. ?B i)"
    by (rule card_SigmaI [symmetric]) simp_all
  also have "(SIGMA i:{0..<?n}. ?B i) = (SIGMA i:{i. live fs i}. {0..<nb fs i})"
    by (auto simp add: live_def split: if_splits)
  finally show ?thesis .
qed

lemma total_owned_le:
  assumes sh: "shape fs" and ow: "owns_with (nb fs) fs"
  shows "total_owned fs \<le> MAX_BLOCKS"
proof -
  let ?S = "SIGMA i:{i. live fs i}. {0..<nb fs i}"
  let ?f = "\<lambda>(i, j). blk fs i j"
  have "inj_on ?f ?S"
  proof (rule inj_onI)
    fix p q assume "p \<in> ?S" "q \<in> ?S" "?f p = ?f q"
    with owns_with_inj [OF ow, of "fst p" "fst q" "snd p" "snd q"] show "p = q"
      by (cases p; cases q) auto
  qed
  moreover have "?f ` ?S \<subseteq> {0..<MAX_BLOCKS}"
    using owns_with_used [OF ow] by auto
  ultimately have "card ?S \<le> card {0..<MAX_BLOCKS}"
    by (intro card_inj_on_le [of ?f]) simp_all
  then show ?thesis by (simp add: total_owned_card)
qed

lemma inode_owns_all:
  assumes sh: "shape fs" and co: "counts fs" and ow: "owns_with c fs" and l: "live fs i"
    and c: "c i = MAX_BLOCKS"
  shows "count_free (block_map fs) = 0" and "free_blocks fs = 0"
    and "\<forall>b < MAX_BLOCKS. block_map fs ! b \<noteq> 0"
proof -
  let ?A = "{0..<MAX_BLOCKS}"
  have inj: "inj_on (blk fs i) ?A"
  proof (rule inj_onI)
    fix j j' assume "j \<in> ?A" "j' \<in> ?A" "blk fs i j = blk fs i j'"
    with owns_with_inj [OF ow l l, of j j'] c show "j = j'" by simp
  qed
  have sub: "blk fs i ` ?A \<subseteq> ?A"
    using owns_with_used [OF ow l] c by auto
  have "blk fs i ` ?A = ?A"
    using _ sub inj by (rule endo_inj_surj) simp
  have "\<forall>b < MAX_BLOCKS. \<exists>j < MAX_BLOCKS. blk fs i j = b"
  proof (intro allI impI)
    fix b assume "b < MAX_BLOCKS"
    then have "b \<in> blk fs i ` ?A" by (simp add: \<open>blk fs i ` ?A = ?A\<close>)
    then show "\<exists>j < MAX_BLOCKS. blk fs i j = b" by auto
  qed
  with owns_with_used [OF ow l] c show all: "\<forall>b < MAX_BLOCKS. block_map fs ! b \<noteq> 0"
    by metis
  with shape_lengths [OF sh] show z: "count_free (block_map fs) = 0"
    by (simp add: count_free_eq_0_iff)
  with co have "unat (free_blocks fs) = 0" by (simp add: counts_def)
  then show "free_blocks fs = 0" by (simp add: unat_eq_0)
qed

lemma needed_for_max: "unat (needed_for (of_nat MAX_FILE_SIZE)) = MAX_BLOCKS"
  by (simp add: needed_for_def MAX_FILE_SIZE_def BLOCK_SIZE_def MAX_BLOCKS_def)

subsection \<open>Blocks that are used but not owned stay so\<close>

lemma owned_iff_all_owned: "owned fs b \<longleftrightarrow> b \<in> set (all_owned fs)"
  by (auto simp add: owned_def all_owned_def live_def set_owned_blocks split: if_splits)

lemma fs_create_file_cases:
  obtains (same) "fst (fs_create_file fs filename now) = fs"
  | (new) k fname where "k < unat (total_inodes fs)" "inode_map fs ! k = 0"
      "\<forall>j. \<not> (live fs j \<and> name (inodes fs ! j) = fname)" "length fname < MAX_FILENAME"
      "filename = Some fname"
      "fs_create_file fs filename now =
         (fs\<lparr> inode_map := (inode_map fs)[k := 1], free_inodes := free_inodes fs - 1,
            inodes := (inodes fs)[k := (inodes fs ! k)\<lparr> name := fname, size_i := 0,
              num_blocks := 0, created := now, modified := now, is_directory := 0 \<rparr>] \<rparr>,
          Inr (int k))"
proof (cases "fst (fs_create_file fs filename now) = fs")
  case True
  then show ?thesis by (rule same)
next
  case False
  then obtain fname where fn: "filename = Some fname" and short: "length fname < MAX_FILENAME"
    and nf: "find_by_name fs fname = None"
    by (cases filename; cases "MAX_FILENAME \<le> length (the filename)";
        cases "find_by_name fs (the filename)") (auto simp add: fs_create_file_def)
  obtain fs1 r where f: "find_free_inode fs = (fs1, r)" by (cases "find_free_inode fs")
  with False fn short nf obtain k where r: "r = Some k"
    by (cases r) (auto simp add: fs_create_file_def find_free_inode_None)
  from f r have k: "k < unat (total_inodes fs)" "inode_map fs ! k = 0"
    and fs1: "fs1 = fs\<lparr> inode_map := (inode_map fs)[k := 1], free_inodes := free_inodes fs - 1 \<rparr>"
    by (simp_all add: find_free_inode_Some)
  from short have tk: "take (MAX_FILENAME - 1) fname = fname" by simp
  show ?thesis
  proof (rule new [OF k _ short fn])
    from nf show "\<forall>j. \<not> (live fs j \<and> name (inodes fs ! j) = fname)"
      by (simp add: find_by_name_None)
    from fn short nf f r fs1 tk
    show "fs_create_file fs filename now =
         (fs\<lparr> inode_map := (inode_map fs)[k := 1], free_inodes := free_inodes fs - 1,
            inodes := (inodes fs)[k := (inodes fs ! k)\<lparr> name := fname, size_i := 0,
              num_blocks := 0, created := now, modified := now, is_directory := 0 \<rparr>] \<rparr>,
          Inr (int k))"
      by (simp add: fs_create_file_def)
  qed
qed

lemma leak_create:
  assumes sh: "shape fs" and u: "block_map fs ! b \<noteq> 0" and no: "\<not> owned fs b"
  shows "block_map (fst (fs_create_file fs filename now)) ! b \<noteq> 0 \<and>
         \<not> owned (fst (fs_create_file fs filename now)) b"
proof (cases rule: fs_create_file_cases [of fs filename now])
  case same
  with u no show ?thesis by simp
next
  case (new k fname)
  define fs' where "fs' = fst (fs_create_file fs filename now)"
  note L = shape_lengths [OF sh]
  from new(1) L have kl: "k < length (inode_map fs)" "k < length (inodes fs)" by simp_all
  have e: "fs' = fs\<lparr> inode_map := (inode_map fs)[k := 1], free_inodes := free_inodes fs - 1,
            inodes := (inodes fs)[k := (inodes fs ! k)\<lparr> name := fname, size_i := 0,
              num_blocks := 0, created := now, modified := now, is_directory := 0 \<rparr>] \<rparr>"
    by (simp add: fs'_def new(6))
  have live': "\<And>i. live fs' i \<longleftrightarrow> live fs i \<or> i = k"
    using kl new(1) by (auto simp add: e live_def nth_list_update)
  have nb': "\<And>i. nb fs' i = (if i = k then 0 else nb fs i)"
    using kl by (simp add: e nb_def nth_list_update)
  have blk': "\<And>i j. blk fs' i j = blk fs i j"
    using kl by (simp add: e blk_def nth_list_update)
  have bm': "block_map fs' = block_map fs" by (simp add: e)
  have "\<not> owned fs' b"
  proof
    assume "owned fs' b"
    then obtain i j where "live fs' i" "j < nb fs' i" "blk fs' i j = b"
      by (auto simp add: owned_def)
    then have "live fs i \<and> j < nb fs i \<and> blk fs i j = b"
      by (auto simp add: live' nb' blk' split: if_splits)
    with no show False by (auto simp add: owned_def)
  qed
  with u show ?thesis by (simp add: fs'_def [symmetric] bm')
qed

lemma leak_delete:
  assumes inv: "fs_inv fs" and b: "b < MAX_BLOCKS" and u: "block_map fs ! b \<noteq> 0"
    and no: "\<not> owned fs b"
  shows "block_map (fst (fs_delete fs filename)) ! b \<noteq> 0 \<and>
         \<not> owned (fst (fs_delete fs filename)) b"
proof (cases "\<exists>fname ino. filename = Some fname \<and> find_by_name fs fname = Some ino")
  case False
  then have "fst (fs_delete fs filename) = fs"
    by (cases filename; cases "find_by_name fs (the filename)") (auto simp add: fs_delete_def)
  with u no show ?thesis by simp
next
  case True
  then obtain fname ino where fn: "filename = Some fname"
    and found: "find_by_name fs fname = Some ino" by auto
  then have l: "live fs ino" by (simp add: find_by_name_Some)
  define fs1 where "fs1 = free_blocks_from fs ino 0"
  define fs' where "fs' = fs1\<lparr> inode_map := (inode_map fs1)[ino := 0],
        free_inodes := free_inodes fs1 + 1, inodes := (inodes fs1)[ino := zero_inode] \<rparr>"
  have res: "fst (fs_delete fs filename) = fs'"
    using fn found by (simp add: fs_delete_def fs'_def fs1_def Let_def)
  note F = free_phase [OF inv l, folded fs1_def]
  note L = shape_lengths [OF F(1)]
  from inv have sh: "shape fs" by (simp add: fs_inv_def)
  from l sh have il: "ino < MAX_FILES" by (rule live_less [rotated])
  have "\<And>i. live fs' i \<longleftrightarrow> live fs1 i \<and> i \<noteq> ino"
    using il L by (auto simp add: fs'_def live_def nth_list_update)
  then have live': "\<And>i. live fs' i \<longleftrightarrow> live fs i \<and> i \<noteq> ino"
    by (simp add: F(12))
  have nb': "\<And>i. i \<noteq> ino \<Longrightarrow> nb fs' i = nb fs i"
    and blk': "\<And>i j. i \<noteq> ino \<Longrightarrow> blk fs' i j = blk fs i j"
    by (simp_all add: fs'_def nb_def blk_def F)
  have bm': "block_map fs' = zero_at (owned_blocks fs ino) (block_map fs)"
    by (simp add: fs'_def F)
  have "b \<notin> set (owned_blocks fs ino)"
    using no l by (auto simp add: set_owned_blocks owned_def)
  with b u shape_lengths [OF sh] have "block_map fs' ! b \<noteq> 0"
    by (simp add: bm' nth_zero_at)
  moreover have "\<not> owned fs' b"
  proof
    assume "owned fs' b"
    then obtain i j where "live fs' i" "j < nb fs' i" "blk fs' i j = b"
      by (auto simp add: owned_def)
    then have "live fs i \<and> j < nb fs i \<and> blk fs i j = b"
      by (auto simp add: live' nb' blk')
    with no show False by (auto simp add: owned_def)
  qed
  ultimately show ?thesis by (simp add: res)
qed

lemma leak_write:
  assumes inv: "fs_inv fs" and b: "b < MAX_BLOCKS" and u: "block_map fs ! b \<noteq> 0"
    and no: "\<not> owned fs b" and w: "fs_write fs filename data sz now = Some (fs', r)"
  shows "block_map fs' ! b \<noteq> 0 \<and> \<not> owned fs' b"
  using w
proof (cases rule: fs_write_dichotomy)
  case early
  with u no show ?thesis by simp
next
  case (run fname d ino)
  note R = fs_write_run [OF inv w [unfolded run(1,2)] run(4,3,5)]
  from run(4) have l: "live fs ino" by (simp add: find_by_name_Some)
  note F = free_phase [OF inv l]
  from inv have sh: "shape fs" by (simp add: fs_inv_def)
  have "b \<notin> set (owned_blocks fs ino)"
    using no l by (auto simp add: set_owned_blocks owned_def)
  with b u shape_lengths [OF sh] have u1: "block_map (free_blocks_from fs ino 0) ! b \<noteq> 0"
    by (simp add: F(6) nth_zero_at)
  with R(9) b have "block_map fs' ! b \<noteq> 0" by simp
  moreover have "\<not> owned fs' b"
  proof
    assume "owned fs' b"
    then obtain i j where o: "live fs' i" "j < nb fs' i" "blk fs' i j = b"
      by (auto simp add: owned_def)
    show False
    proof (cases "i = ino")
      case True
      with o(2) R(7) have "j < (case r of Inl e \<Rightarrow> count_free (block_map fs) + nb fs ino
          | Inr v \<Rightarrow> unat (needed_for sz))" by simp
      with R(10) have "block_map (free_blocks_from fs ino 0) ! blk fs' ino j = 0" by simp
      with o(3) True u1 show False by simp
    next
      case False
      with o R(4) R(6) R(11) have "live fs i \<and> j < nb fs i \<and> blk fs i j = b" by simp
      with no show False by (auto simp add: owned_def)
    qed
  qed
  ultimately show ?thesis by simp
qed

lemma leak_step:
  assumes "fs_inv fs" and "b < MAX_BLOCKS" and "block_map fs ! b \<noteq> 0" and "\<not> owned fs b"
    and "step fs x = Some fs'"
  shows "block_map fs' ! b \<noteq> 0 \<and> \<not> owned fs' b"
proof (cases x)
  case (CreateFile f t)
  with assms leak_create [of fs b f t] show ?thesis by (auto simp add: fs_inv_def)
next
  case (Write f d sz t)
  with assms(5) obtain r where "fs_write fs f d sz t = Some (fs', r)" by auto
  from leak_write [OF assms(1-4) this] show ?thesis .
next
  case (Read f buf sz)
  with assms show ?thesis by auto
next
  case (Delete f)
  with assms leak_delete [of fs b f] show ?thesis by auto
qed

lemma leak_run:
  assumes "run fs xs = Some fs'" and "fs_inv fs" and "b < MAX_BLOCKS"
    and "block_map fs ! b \<noteq> 0" and "\<not> owned fs b"
  shows "block_map fs' ! b \<noteq> 0 \<and> \<not> owned fs' b"
  using assms
proof (induction xs arbitrary: fs)
  case Nil
  then show ?case by simp
next
  case (Cons x xs)
  from Cons.prems(1) obtain fs1 where s: "step fs x = Some fs1" and r: "run fs1 xs = Some fs'"
    by (auto split: option.splits)
  from leak_step [OF Cons.prems(2-5) s] step_inv [OF Cons.prems(2) s] Cons.prems(3)
  show ?case by (intro Cons.IH [OF r]) simp_all
qed

subsection \<open>When \<^verbatim>\<open>fs_write\<close> is defined and when it succeeds\<close>

lemma unat_ucast_le: "unat (ucast (x :: size_t) :: u32) \<le> unat x"
  by (simp add: unsigned_ucast_eq take_bit_nat_less_eq_self)

lemma unat_add_63_le: "unat ((sz :: size_t) + 63) \<le> unat sz + 63"
proof -
  have "unat (sz + 63) = (unat sz + unat (63 :: size_t)) mod 2 ^ 64"
    by (simp only: unat_word_ariths(1) len_of_numeral_defs) simp
  also have "\<dots> \<le> unat sz + unat (63 :: size_t)" by (rule mod_less_eq_dividend)
  finally show ?thesis by simp
qed

lemma needed_for_bound: "unat (needed_for sz) * 64 \<le> unat sz + 63"
proof -
  have "sz + of_nat BLOCK_SIZE - 1 = sz + 63" "(of_nat BLOCK_SIZE :: size_t) = 64"
    by (simp_all add: BLOCK_SIZE_def)
  then have e: "needed_for sz = ucast ((sz + 63) div 64)"
    by (simp only: needed_for_def)
  have "unat (needed_for sz) \<le> unat ((sz + 63) div 64)"
    unfolding e by (rule unat_ucast_le)
  also have "\<dots> = unat (sz + 63) div 64"
    by (simp add: unat_div)
  finally have "unat (needed_for sz) * 64 \<le> unat (sz + 63) div 64 * 64"
    by (rule mult_le_mono1)
  also have "\<dots> \<le> unat (sz + 63)"
    by (rule div_times_less_eq_dividend)
  also have "\<dots> \<le> unat sz + 63"
    by (rule unat_add_63_le)
  finally show ?thesis .
qed

lemma copy_in_range:
  assumes b: "unat needed * 64 \<le> unat sz + 63" and i: "i < unat needed"
    and d: "unat sz \<le> length d"
  shows "i * BLOCK_SIZE +
     (if i = unat (needed - 1) then unat sz mod BLOCK_SIZE else BLOCK_SIZE) \<le> length d"
proof -
  from i have n0: "needed \<noteq> 0" by auto
  then have n1: "unat (needed - 1) = unat needed - 1" by (rule unat_minus_one)
  show ?thesis
  proof (cases "i = unat (needed - 1)")
    case True
    with n1 i have "unat needed = Suc i" by simp
    with b have "i * 64 + 64 \<le> unat sz + 63" by simp
    then have "i * 64 \<le> unat sz" by simp
    then have "i \<le> unat sz div 64" by (simp add: less_eq_div_iff_mult_less_eq)
    then have "i * 64 \<le> unat sz div 64 * 64" by (rule mult_le_mono1)
    then have "i * 64 + unat sz mod 64 \<le> unat sz div 64 * 64 + unat sz mod 64"
      by (rule add_le_mono1)
    also have "\<dots> = unat sz" by (rule div_mult_mod_eq)
    finally have "i * 64 + unat sz mod 64 \<le> unat sz" .
    with True d show ?thesis by (simp add: BLOCK_SIZE_def)
  next
    case False
    with n1 i have "Suc (Suc i) \<le> unat needed" by simp
    then have "Suc (Suc i) * 64 \<le> unat needed * 64" by (rule mult_le_mono1)
    with b have "i * 64 + 64 \<le> unat sz" by simp
    with False d show ?thesis by (simp add: BLOCK_SIZE_def)
  qed
qed

lemma write_blocks_from_defined:
  assumes "shape fs" and "counts fs" and "live fs ino" and "owns_with (c(ino := i)) fs"
    and "unat needed \<le> MAX_BLOCKS" and "i \<le> unat needed"
    and "unat needed * 64 \<le> unat sz + 63" and "unat sz \<le> length d"
  shows "\<exists>res. write_blocks_from fs ino d sz needed i = Some res"
  using assms
proof (induction "unat needed - i" arbitrary: fs i)
  case 0
  then have "\<not> i < unat needed" by simp
  from write_blocks_from_done [OF this] show ?case by simp
next
  case (Suc n)
  then have i: "i < unat needed" "i < MAX_BLOCKS" by simp_all
  note L = shape_lengths [OF \<open>shape fs\<close>]
  obtain fs1 rb where f: "find_free_block fs = (fs1, rb)" by (cases "find_free_block fs")
  show ?case
  proof (cases rb)
    case None
    with write_blocks_from_nospace [OF i(1)] f show ?thesis by simp
  next
    case (Some b)
    with f have f': "find_free_block fs = (fs1, Some b)" by simp
    from f' L have b: "b < MAX_BLOCKS" by (simp add: find_free_block_Some)
    let ?n = "if i = unat (needed - 1) then unat sz mod BLOCK_SIZE else BLOCK_SIZE"
    from find_free_block_frame [OF f] \<open>shape fs\<close> b
    have len: "length (blocks fs1 ! b) = BLOCK_SIZE" by (simp add: shape_def)
    have "?n \<le> BLOCK_SIZE" by (simp add: BLOCK_SIZE_def)
    with len copy_in_range [OF Suc.prems(7) i(1) Suc.prems(8)]
    obtain bytes where m: "memcpy (blocks fs1 ! b) 0 d (i * BLOCK_SIZE) ?n = Some bytes"
      by (simp add: memcpy_def)
    from length_memcpy [OF m] len have lb: "length bytes = BLOCK_SIZE" by simp
    define fs3 where "fs3 = assign_block fs1 ino i b bytes"
    note S = alloc_step [OF Suc.prems(1-4) i(2) f' lb, folded fs3_def]
    from Suc.hyps(2) i have n: "n = unat needed - Suc i" by simp
    from S(3) \<open>live fs ino\<close> have l3: "live fs3 ino" by simp
    from i have si: "Suc i \<le> unat needed" by simp
    from Suc.hyps(1) [OF n S(1) S(2) l3 S(4) Suc.prems(5) si Suc.prems(7,8)]
    obtain res where "write_blocks_from fs3 ino d sz needed (Suc i) = Some res" by blast
    with write_blocks_from_step [OF i(1) f', of ino d sz] m show ?thesis
      by (simp add: fs3_def)
  qed
qed

lemma write_blocks_from_count:
  assumes "write_blocks_from fs ino d sz needed i = Some (fs', Inr u)"
    and "unat (total_blocks fs) \<le> length (block_map fs)" and "i \<le> unat needed"
  shows "count_free (block_map fs') + (unat needed - i) = count_free (block_map fs)"
  using assms
proof (induction "unat needed - i" arbitrary: fs i)
  case 0
  then have "\<not> i < unat needed" by simp
  from write_blocks_from_done [OF this, of fs ino d sz] "0.prems"(1) "0.hyps"
  show ?case by simp
next
  case (Suc n)
  then have i: "i < unat needed" by simp
  obtain fs1 rb where f: "find_free_block fs = (fs1, rb)" by (cases "find_free_block fs")
  show ?case
  proof (cases rb)
    case None
    with write_blocks_from_nospace [OF i] f Suc.prems(1) show ?thesis by simp
  next
    case (Some b)
    with f have f': "find_free_block fs = (fs1, Some b)" by simp
    then have b: "b < unat (total_blocks fs)" "block_map fs ! b = 0"
      and fs1: "fs1 = fs\<lparr> block_map := (block_map fs)[b := 1], free_blocks := free_blocks fs - 1 \<rparr>"
      by (simp_all add: find_free_block_Some)
    from write_blocks_from_step [OF i f', of ino d sz] Suc.prems(1)
    obtain bytes where
      w: "write_blocks_from (assign_block fs1 ino i b bytes) ino d sz needed (Suc i) = Some (fs', Inr u)"
      by (auto split: option.splits)
    let ?fs3 = "assign_block fs1 ino i b bytes"
    have bm: "block_map ?fs3 = (block_map fs)[b := 1]" "total_blocks ?fs3 = total_blocks fs"
      by (simp_all add: assign_block_frame fs1)
    from Suc.hyps(2) i have n: "n = unat needed - Suc i" by simp
    from Suc.prems(2) have t: "unat (total_blocks ?fs3) \<le> length (block_map ?fs3)"
      by (simp add: bm)
    from i have si: "Suc i \<le> unat needed" by simp
    from b Suc.prems(2) have "Suc (count_free ((block_map fs)[b := 1])) = count_free (block_map fs)"
      by (intro count_free_set_used) simp_all
    with Suc.hyps(1) [OF n w t si] i show ?thesis
      by (simp add: bm)
  qed
qed

lemma fs_write_defined:
  assumes inv: "fs_inv fs" and d: "unat sz \<le> length d"
  shows "\<exists>fs' r. fs_write fs filename (Some d) sz now = Some (fs', r)"
proof (cases "filename = None \<or> sz = 0 \<or>
         (\<exists>fname. filename = Some fname \<and> find_by_name fs fname = None) \<or>
         MAX_BLOCKS < unat (needed_for sz)")
  case True
  then show ?thesis
    by (auto simp add: fs_write_def needed_for_def Let_def split: option.splits)
next
  case False
  then obtain fname ino where fn: "filename = Some fname" and nz: "sz \<noteq> 0"
    and found: "find_by_name fs fname = Some ino" and fit: "unat (needed_for sz) \<le> MAX_BLOCKS"
    by (cases filename) auto
  from found have l: "live fs ino" by (simp add: find_by_name_Some)
  note F = free_phase [OF inv l]
  from F(12) l have l1: "live (free_blocks_from fs ino 0) ino" by simp
  have ow1: "owns_with (((nb fs)(ino := 0))(ino := 0)) (free_blocks_from fs ino 0)"
    using F(3) by simp
  from write_blocks_from_defined [OF F(1) F(2) l1 ow1 fit _ needed_for_bound d]
  obtain fs2 rl where
    "write_blocks_from (free_blocks_from fs ino 0) ino d sz (needed_for sz) 0 = Some (fs2, rl)"
    by auto
  then show ?thesis
    unfolding fn fs_write_unfold [OF found nz fit]
    by (cases rl) simp_all
qed

lemma fs_write_result:
  assumes inv: "fs_inv fs" and found: "find_by_name fs fname = Some ino" and nz: "sz \<noteq> 0"
    and fit: "unat (needed_for sz) \<le> MAX_BLOCKS" and d: "unat sz \<le> length d"
  shows "\<exists>fs'. fs_write fs (Some fname) (Some d) sz now =
     Some (fs', if unat (needed_for sz) \<le> unat (free_blocks fs) + nb fs ino
                then Inr (sint (ucast sz :: 32 word)) else Inl NoSpace)"
proof -
  from fs_write_defined [OF inv d, of "Some fname" now]
  obtain fs' r where w: "fs_write fs (Some fname) (Some d) sz now = Some (fs', r)" by blast
  note R = fs_write_run [OF inv w found nz fit]
  from inv have co: "counts fs" and sh: "shape fs" by (simp_all add: fs_inv_def)
  from found have l: "live fs ino" by (simp add: find_by_name_Some)
  note F = free_phase [OF inv l]
  let ?k = "unat (free_blocks fs) + nb fs ino"
  from co have k: "count_free (block_map fs) + nb fs ino = ?k" by (simp add: counts_def)
  show ?thesis
  proof (cases r)
    case (Inl e)
    with R(13) k have "e = NoSpace" "?k < unat (needed_for sz)" by simp_all
    with w Inl show ?thesis by auto
  next
    case (Inr v)
    with R(14) have v: "v = sint (ucast sz :: 32 word)" by simp
    from w Inr fs_write_unfold [OF found nz fit, of d now]
    obtain fs2 u where
      loop: "write_blocks_from (free_blocks_from fs ino 0) ino d sz (needed_for sz) 0 = Some (fs2, Inr u)"
      by (auto split: option.splits sum.splits)
    from F(1) have "unat (total_blocks (free_blocks_from fs ino 0)) \<le>
        length (block_map (free_blocks_from fs ino 0))"
      by (simp add: shape_def)
    from write_blocks_from_count [OF loop this] F(5) k
    have "unat (needed_for sz) \<le> ?k" by simp
    with w Inr v show ?thesis by auto
  qed
qed

subsection \<open>The entries filled by a write that fails\<close>

lemma count_free_card: "count_free m = card {b. b < length m \<and> m ! b = 0}"
  by (simp add: count_free_def length_filter_conv_card)

lemma failed_write_entries:
  assumes inv: "fs_inv fs"
    and w: "fs_write fs (Some fname) (Some d) sz now = Some (fs', Inl NoSpace)"
    and found: "find_by_name fs fname = Some ino"
  shows "blk fs' ino ` {0..<unat (free_blocks fs) + nb fs ino} =
     {b. b < MAX_BLOCKS \<and> block_map fs ! b = 0} \<union> set (owned_blocks fs ino)"
proof -
  from inv have sh: "shape fs" and co: "counts fs" and ow0: "owns_with (nb fs) fs"
    by (simp_all add: fs_inv_def)
  from found have l: "live fs ino" by (simp add: find_by_name_Some)
  from w have run: "sz \<noteq> 0" "unat (needed_for sz) \<le> MAX_BLOCKS"
    using found by (cases rule: fs_write_dichotomy; simp)+
  note R = fs_write_run [OF inv w found run]
  note F = free_phase [OF inv l]
  note L = shape_lengths [OF sh]
  let ?k = "unat (free_blocks fs) + nb fs ino"
  let ?fs1 = "free_blocks_from fs ino 0"
  let ?S = "blk fs' ino ` {0..<?k}"
  let ?Z = "{b. b < length (block_map ?fs1) \<and> block_map ?fs1 ! b = 0}"
  from co have k: "count_free (block_map fs) + nb fs ino = ?k" by (simp add: counts_def)
  from R(5) have ow: "owns_with ((nb fs)(ino := ?k)) fs'" by (simp add: k)
  from R(4) l have l': "live fs' ino" by simp
  from shape_lengths [OF F(1)] have L1: "length (block_map ?fs1) = MAX_BLOCKS" by simp
  have sub: "?S \<subseteq> ?Z"
  proof
    fix b assume "b \<in> ?S"
    then obtain j where j: "j < ?k" and b: "b = blk fs' ino j" by auto
    from j have jk: "j < ((nb fs)(ino := ?k)) ino" by simp
    from owns_with_used [OF ow l' jk] have "b < MAX_BLOCKS" by (simp add: b)
    moreover from R(10) j have "block_map ?fs1 ! b = 0" by (simp add: k b)
    ultimately show "b \<in> ?Z" by (simp add: L1)
  qed
  have "inj_on (blk fs' ino) {0..<?k}"
  proof (rule inj_onI)
    fix x y assume "x \<in> {0..<?k}" "y \<in> {0..<?k}" "blk fs' ino x = blk fs' ino y"
    with owns_with_inj [OF ow l' l', of x y] show "x = y" by simp
  qed
  then have "card ?S = ?k" by (simp add: card_image)
  moreover have "card ?Z = ?k"
    using F(5) k by (simp add: count_free_card)
  moreover have "finite ?Z" by simp
  ultimately have "?S = ?Z" using sub by (intro card_subset_eq) simp_all
  also have "?Z = {b. b < MAX_BLOCKS \<and> block_map fs ! b = 0} \<union> set (owned_blocks fs ino)"
  proof -
    have "set (owned_blocks fs ino) \<subseteq> {b. b < MAX_BLOCKS}"
      using owns_with_used [OF ow0 l] by (auto simp add: set_owned_blocks)
    then show ?thesis
      using L by (auto simp add: L1 F(6) nth_zero_at split: if_splits)
  qed
  finally show ?thesis .
qed

section \<open>Evaluating the scenarios\<close>

text \<open>
  The scenarios are evaluated by the simplifier from the definitions of the operations
  and the recursion equations of the loops.
\<close>

lemmas eval_rules = fs_create_file_def fs_write_def fs_read_def fs_delete_def
  find_by_name_def find_free_inode_def find_free_block_def
  find_by_name_from.simps find_free_inode_from.simps find_free_block_from.simps
  free_blocks_from.simps write_blocks_from.simps read_blocks_from.simps memcpy_def
  MAX_FILENAME_def MAX_FILES_def MAX_FILE_SIZE_def BLOCK_SIZE_def MAX_BLOCKS_def
  Let_def new_filesystem_def zero_inode_def numeral_2_eq_2 [symmetric]

lemma reachable_new: "reachable new_filesystem"
  by (rule reachable_init [of True True]) (simp add: fs_create_def)

lemma reachable_with_f: "reachable fs_with_f"
  by (rule reachable_step [OF reachable_new, of "CreateFile (Some ''f'') 0"])
    (simp add: fs_with_f_def)

lemma two_files_run: "run new_filesystem two_files_ops = Some fs_two_files"
proof -
  have "run new_filesystem two_files_ops \<noteq> None"
    by (simp add: two_files_ops_def eval_rules)
  then show ?thesis by (auto simp add: fs_two_files_def)
qed

lemma reachable_two_files: "reachable fs_two_files"
  using reachable_new two_files_run by (rule run_reachable)

lemma two_files_facts:
  "(let fs = fs_two_files in
      find_by_name fs ''a'' = Some 0 \<and> find_by_name fs ''b'' = Some 1 \<and>
      nb fs 0 = 2 \<and> nb fs 1 = 10 \<and> free_blocks fs = 4 \<and> free_inodes fs = 254)"
  by (simp add: fs_two_files_def two_files_ops_def nb_def eval_rules)

lemma failed_write_result:
  "fs_write fs_two_files (Some ''a'') (Some (replicate 1000 67)) 1000 3 =
     Some (fs_failed_write, Inl NoSpace)"
proof -
  have "map_option snd (fs_write fs_two_files (Some ''a'') (Some (replicate 1000 67)) 1000 3) =
      Some (Inl NoSpace)"
    by (simp add: fs_two_files_def two_files_ops_def eval_rules)
  then show ?thesis by (auto simp add: fs_failed_write_def)
qed

lemma reachable_failed_write: "reachable fs_failed_write"
  by (rule reachable_step [OF reachable_two_files,
        of "Write (Some ''a'') (Some (replicate 1000 67)) 1000 3"])
    (simp add: failed_write_result)

lemma failed_write_facts:
  "(let fs = fs_failed_write in
      live fs 0 \<and> nb fs 0 = 2 \<and> blk fs 0 0 = 0 \<and> blk fs 0 1 = 1 \<and> blk fs 0 2 = 12 \<and>
      blk fs 0 5 = 15 \<and> size_i (inodes fs ! 0) = 100 \<and>
      blocks fs ! 0 = replicate 64 67)"
  by (simp add: fs_failed_write_def fs_two_files_def two_files_ops_def nb_def blk_def live_def
      eval_rules)

lemma full_pool_run: "run new_filesystem full_pool_ops = Some fs_full_pool"
proof -
  have "run new_filesystem full_pool_ops \<noteq> None"
    by (simp add: full_pool_ops_def eval_rules)
  then show ?thesis by (auto simp add: fs_full_pool_def)
qed

lemma reachable_full_pool: "reachable fs_full_pool"
  using reachable_new full_pool_run by (rule run_reachable)

lemma full_pool_facts:
  "(let fs = fs_full_pool in
      find_by_name fs ''a'' = Some 0 \<and> nb fs 0 = 1 \<and> blk fs 0 0 = 0 \<and> free_blocks fs = 0 \<and>
      block_map fs ! 0 = 1 \<and> blocks fs ! 0 = replicate 10 65 @ replicate 54 0)"
  by (simp add: fs_full_pool_def full_pool_ops_def nb_def blk_def eval_rules)

lemma full_pool_write:
  "fs_write fs_full_pool (Some ''a'') (Some (replicate 10 65 @ replicate 118 0)) 128 3 =
     Some (fs_full_pool, Inl NoSpace)"
  by (simp add: fs_full_pool_def full_pool_ops_def eval_rules list_update_same_conv)

section \<open>The claims\<close>

subsection \<open>C1: write followed by read\<close>

text \<open>
  C1 says that \<^verbatim>\<open>fs_write\<close> of \<open>data\<close> followed by \<^verbatim>\<open>fs_read\<close> of \<open>len(data)\<close> bytes
  returns \<open>data\<close>, also when the length is an exact multiple of \<^verbatim>\<open>BLOCK_SIZE\<close>. The code
  at 64 bytes, one full block: \<^verbatim>\<open>fs_write\<close> returns 64 but copies
  \<^verbatim>\<open>size % BLOCK_SIZE\<close> = 0 bytes into the only block, which keeps its old contents;
  \<^verbatim>\<open>fs_read\<close> of 64 bytes returns 64 and copies 0 bytes, so the caller's buffer is
  unchanged and does not hold the data.
\<close>

theorem write_read_block_multiple:
  "(case fs_write fs_with_f (Some ''f'') (Some (replicate 64 65)) 64 0 of
      Some (fs1, Inr n) \<Rightarrow>
        n = 64 \<and>
        blocks fs1 ! 0 = replicate 64 0 \<and>
        fs_read fs1 (Some ''f'') (Some (replicate 64 255)) 64 = Some (Inr (replicate 64 255, 64))
    | _ \<Rightarrow> False)"
  by (simp add: fs_with_f_def eval_rules)

subsection \<open>C2: what a read copies\<close>

text \<open>
  C2 says that \<^verbatim>\<open>fs_read\<close> copies at most \<^verbatim>\<open>to_read\<close> = min(\<^verbatim>\<open>max_size\<close>, size) bytes
  and writes no buffer position at or beyond \<^verbatim>\<open>to_read\<close>. The code at a file of 200
  bytes read with \<^verbatim>\<open>max_size\<close> 10: \<^verbatim>\<open>to_read\<close> is 10 and 10 is returned, but the loop
  copies 64 bytes from each of the first three blocks and 10 from the last. A buffer of
  256 bytes is overwritten at the positions 0 to 201, and with a buffer of 10 bytes the
  copy runs past its end.
\<close>

theorem read_beyond_to_read:
  "fs_read (fs_f_written 200) (Some ''f'') (Some (replicate 256 255)) 10 =
     Some (Inr (replicate 200 65 @ replicate 2 0 @ replicate 54 255, 10)) \<and>
   fs_read (fs_f_written 200) (Some ''f'') (Some (replicate 10 255)) 10 = None"
  by (simp add: fs_f_written_def fs_with_f_def eval_rules replicate_add [symmetric])

subsection \<open>C3: the name check of \<^verbatim>\<open>fs_create_file\<close>\<close>

text \<open>
  C3, as the code has it. \<^verbatim>\<open>fs_create_file\<close> leaves through its first check exactly
  when the name pointer is \<^verbatim>\<open>NULL\<close> or the name has \<^verbatim>\<open>MAX_FILENAME\<close> characters or more.
  The empty string passes this check.
\<close>

theorem create_invalid_name_iff:
  "snd (fs_create_file fs filename now) = Inl InvalidName \<longleftrightarrow>
     filename = None \<or> (\<exists>fname. filename = Some fname \<and> MAX_FILENAME \<le> length fname)"
  by (auto simp add: fs_create_file_def split: option.splits prod.splits)

theorem create_invalid_name_iff_witness:
  "snd (fs_create_file new_filesystem None 0) = Inl InvalidName \<and>
   snd (fs_create_file new_filesystem (Some (replicate 32 CHR ''a'')) 0) = Inl InvalidName \<and>
   snd (fs_create_file new_filesystem (Some (replicate 31 CHR ''a'')) 0) \<noteq> Inl InvalidName \<and>
   snd (fs_create_file new_filesystem (Some '''') 0) \<noteq> Inl InvalidName"
  using create_invalid_name_iff [of new_filesystem None 0]
    create_invalid_name_iff [of new_filesystem "Some (replicate 32 CHR ''a'')" 0]
    create_invalid_name_iff [of new_filesystem "Some (replicate 31 CHR ''a'')" 0]
    create_invalid_name_iff [of new_filesystem "Some ''''" 0]
  by (simp add: MAX_FILENAME_def)

text \<open>
  C3 as stated fails: on the fresh filesystem, creating the file with the empty name
  succeeds and returns inode 0.
\<close>

theorem create_empty_name_succeeds:
  "snd (fs_create_file new_filesystem (Some '''') 0) = Inr 0 \<and>
   inode_map (fst (fs_create_file new_filesystem (Some '''') 0)) ! 0 = 1"
  by (simp add: eval_rules)

subsection \<open>C4: the free counters\<close>

text \<open>
  C4. In every reachable state, the states that failed operations leave included,
  \<^verbatim>\<open>free_blocks\<close> is the number of entries of \<^verbatim>\<open>block_map\<close> that are 0 and
  \<^verbatim>\<open>free_inodes\<close> is the number of entries of \<^verbatim>\<open>inode_map\<close> that are 0; the maps have
  \<^verbatim>\<open>total_blocks\<close> and \<^verbatim>\<open>total_inodes\<close> entries.
\<close>

theorem free_counters_match_maps:
  assumes "reachable fs"
  shows "unat (free_blocks fs) = count_free (block_map fs) \<and>
         unat (free_inodes fs) = count_free (inode_map fs) \<and>
         length (block_map fs) = unat (total_blocks fs) \<and>
         length (inode_map fs) = unat (total_inodes fs)"
proof -
  from assms have "fs_inv fs" by (rule reachable_inv)
  then have "shape fs" "counts fs" by (simp_all add: fs_inv_def)
  then show ?thesis by (simp add: shape_def counts_def)
qed

text \<open>The state left by the write that failed with \<open>NoSpace\<close> is such a state.\<close>

theorem free_counters_match_maps_witness:
  "reachable fs_failed_write \<and>
   unat (free_blocks fs_failed_write) = count_free (block_map fs_failed_write) \<and>
   unat (free_inodes fs_failed_write) = count_free (inode_map fs_failed_write) \<and>
   length (block_map fs_failed_write) = unat (total_blocks fs_failed_write) \<and>
   length (inode_map fs_failed_write) = unat (total_inodes fs_failed_write)"
  using free_counters_match_maps [OF reachable_failed_write] reachable_failed_write
  by simp

subsection \<open>C5: the blocks of a live inode are allocated\<close>

text \<open>
  C5. In every reachable state, the states left by a write that failed with \<open>NoSpace\<close>
  included, every entry \<^verbatim>\<open>blocks[j]\<close> with \<open>j\<close> below \<^verbatim>\<open>num_blocks\<close> of a live inode is
  the index of a block that is marked used in the block map.
\<close>

theorem live_blocks_allocated:
  assumes "reachable fs" and "live fs i" and "j < nb fs i"
  shows "blk fs i j < unat (total_blocks fs) \<and> block_map fs ! blk fs i j \<noteq> 0"
proof -
  from assms(1) have "fs_inv fs" by (rule reachable_inv)
  then have sh: "shape fs" and ow: "owns_with (nb fs) fs" by (simp_all add: fs_inv_def)
  from owns_with_used [OF ow assms(2,3)] sh show ?thesis by (simp add: shape_def)
qed

text \<open>Inode 0 after the write to it failed: it is live and entry 1 of its 2 entries is used.\<close>

theorem live_blocks_allocated_witness:
  "reachable fs_failed_write \<and> live fs_failed_write 0 \<and> 1 < nb fs_failed_write 0 \<and>
   blk fs_failed_write 0 1 < unat (total_blocks fs_failed_write) \<and>
   block_map fs_failed_write ! blk fs_failed_write 0 1 \<noteq> 0"
proof -
  from failed_write_facts have h: "live fs_failed_write 0" "1 < nb fs_failed_write 0"
    by (simp_all add: Let_def)
  from live_blocks_allocated [OF reachable_failed_write h] reachable_failed_write h
  show ?thesis by simp
qed

subsection \<open>C6: a write frees before it allocates\<close>

text \<open>
  C6, as the code has it. For a call of \<^verbatim>\<open>fs_write\<close> that finds its file and passes the
  size checks: in the state in which the allocation loop starts, every block the inode
  owned is marked free and \<^verbatim>\<open>free_blocks\<close> has grown by \<^verbatim>\<open>num_blocks\<close>; the result of the
  call is the result of the allocation loop run from that state. So the allocation draws
  on the free blocks and the file's old blocks alike: with the data in range, the call
  fails with \<open>NoSpace\<close> exactly when it needs more than \<^verbatim>\<open>free_blocks\<close> + \<^verbatim>\<open>num_blocks\<close>
  blocks. When the call fails with \<open>NoSpace\<close>, the state it leaves is the one the loop
  had reached, nothing is restored. The loop has taken every block of the pool:
  \<^verbatim>\<open>free_blocks\<close> is 0 and every block is marked used, the file's old blocks among them.
  The leading \<^verbatim>\<open>free_blocks\<close> + \<^verbatim>\<open>num_blocks\<close> entries of the inode's block array are the
  blocks that were free before the call together with the file's old blocks. The inode
  keeps its \<^verbatim>\<open>num_blocks\<close> and size. The state differs from the one before the call
  whenever a block was free then.
\<close>

theorem write_frees_before_allocating:
  assumes r: "reachable fs" and found: "find_by_name fs fname = Some ino" and nz: "sz \<noteq> 0"
    and fit: "unat (needed_for sz) \<le> MAX_BLOCKS"
  shows "(\<forall>j < nb fs ino. block_map (free_blocks_from fs ino 0) ! blk fs ino j = 0) \<and>
     unat (free_blocks (free_blocks_from fs ino 0)) = unat (free_blocks fs) + nb fs ino \<and>
     fs_write fs (Some fname) (Some d) sz now =
       (case write_blocks_from (free_blocks_from fs ino 0) ino d sz (needed_for sz) 0 of
          None \<Rightarrow> None
        | Some (fs2, Inl e) \<Rightarrow> Some (fs2, Inl e)
        | Some (fs2, Inr u) \<Rightarrow>
            Some (finish_write fs2 ino sz now, Inr (sint (ucast sz :: 32 word)))) \<and>
     (unat sz \<le> length d \<longrightarrow>
        (\<exists>fs'. fs_write fs (Some fname) (Some d) sz now = Some (fs', Inl NoSpace)) =
        (unat (free_blocks fs) + nb fs ino < unat (needed_for sz))) \<and>
     (\<forall>fs'. fs_write fs (Some fname) (Some d) sz now = Some (fs', Inl NoSpace) \<longrightarrow>
        write_blocks_from (free_blocks_from fs ino 0) ino d sz (needed_for sz) 0 =
          Some (fs', Inl NoSpace) \<and>
        unat (free_blocks fs) + nb fs ino < unat (needed_for sz) \<and>
        free_blocks fs' = 0 \<and> (\<forall>b < MAX_BLOCKS. block_map fs' ! b \<noteq> 0) \<and>
        (\<forall>j < nb fs ino. block_map fs' ! blk fs ino j \<noteq> 0) \<and>
        blk fs' ino ` {0..<unat (free_blocks fs) + nb fs ino} =
          {b. b < MAX_BLOCKS \<and> block_map fs ! b = 0} \<union> set (owned_blocks fs ino) \<and>
        (free_blocks fs \<noteq> 0 \<longrightarrow> fs' \<noteq> fs) \<and>
        num_blocks (inodes fs' ! ino) = num_blocks (inodes fs ! ino) \<and>
        size_i (inodes fs' ! ino) = size_i (inodes fs ! ino))"
proof -
  from r have inv: "fs_inv fs" by (rule reachable_inv)
  then have sh: "shape fs" and co: "counts fs" and ow: "owns_with (nb fs) fs"
    by (simp_all add: fs_inv_def)
  from found have l: "live fs ino" by (simp add: find_by_name_Some)
  note F = free_phase [OF inv l]
  note L = shape_lengths [OF sh]
  let ?fs1 = "free_blocks_from fs ino 0"
  let ?k = "unat (free_blocks fs) + nb fs ino"
  from co have k: "count_free (block_map fs) + nb fs ino = ?k" by (simp add: counts_def)
  have 1: "\<forall>j < nb fs ino. block_map ?fs1 ! blk fs ino j = 0"
  proof (intro allI impI)
    fix j assume j: "j < nb fs ino"
    with owns_with_used [OF ow l j] L show "block_map ?fs1 ! blk fs ino j = 0"
      by (auto simp add: F(6) nth_zero_at set_owned_blocks)
  qed
  have 2: "unat (free_blocks ?fs1) = ?k"
    using F(2) F(5) co by (simp add: counts_def)
  note 3 = fs_write_unfold [OF found nz fit, of d now]
  have 4: "write_blocks_from ?fs1 ino d sz (needed_for sz) 0 = Some (fs', Inl NoSpace) \<and>
        ?k < unat (needed_for sz) \<and>
        free_blocks fs' = 0 \<and> (\<forall>b < MAX_BLOCKS. block_map fs' ! b \<noteq> 0) \<and>
        (\<forall>j < nb fs ino. block_map fs' ! blk fs ino j \<noteq> 0) \<and>
        blk fs' ino ` {0..<?k} =
          {b. b < MAX_BLOCKS \<and> block_map fs ! b = 0} \<union> set (owned_blocks fs ino) \<and>
        (free_blocks fs \<noteq> 0 \<longrightarrow> fs' \<noteq> fs) \<and>
        num_blocks (inodes fs' ! ino) = num_blocks (inodes fs ! ino) \<and>
        size_i (inodes fs' ! ino) = size_i (inodes fs ! ino)"
    if w: "fs_write fs (Some fname) (Some d) sz now = Some (fs', Inl NoSpace)" for fs'
  proof -
    from w 3 have loop: "write_blocks_from ?fs1 ino d sz (needed_for sz) 0 = Some (fs', Inl NoSpace)"
      by (auto split: option.splits sum.splits)
    note R = fs_write_run [OF inv w found nz fit]
    from R(13) k have less: "?k < unat (needed_for sz)" by simp
    from R(13) have cz: "count_free (block_map fs') = 0" by simp
    with R(2) have "unat (free_blocks fs') = 0" by (simp add: counts_def)
    then have z: "free_blocks fs' = 0" by (simp add: unat_eq_0)
    from cz shape_lengths [OF R(1)] have used: "\<forall>b < MAX_BLOCKS. block_map fs' ! b \<noteq> 0"
      by (simp add: count_free_eq_0_iff)
    have old: "\<forall>j < nb fs ino. block_map fs' ! blk fs ino j \<noteq> 0"
    proof (intro allI impI)
      fix j assume j: "j < nb fs ino"
      from owns_with_used [OF ow l j] have "blk fs ino j < MAX_BLOCKS" by simp
      with used show "block_map fs' ! blk fs ino j \<noteq> 0" by simp
    qed
    note ent = failed_write_entries [OF inv w found]
    from write_blocks_from_frame [OF loop] F(7)
    have "num_blocks (inodes fs' ! ino) = num_blocks (inodes fs ! ino)"
      "size_i (inodes fs' ! ino) = size_i (inodes fs ! ino)"
      by simp_all
    with loop less z used old ent show ?thesis by auto
  qed
  have 5: "(\<exists>fs'. fs_write fs (Some fname) (Some d) sz now = Some (fs', Inl NoSpace)) =
        (?k < unat (needed_for sz))" if d: "unat sz \<le> length d"
    using fs_write_result [OF inv found nz fit d, of now] by (auto split: if_splits)
  from 1 2 3 4 5 show ?thesis by blast
qed

text \<open>
  The failing write of 1000 bytes to \<open>a\<close>: the blocks 0 and 1 are freed, six blocks are
  allocated, the blocks 0 and 1 among them, and block 0 holds new data when the call fails.
\<close>

theorem write_frees_before_allocating_witness:
  "reachable fs_two_files \<and> find_by_name fs_two_files ''a'' = Some 0 \<and>
   (1000 :: size_t) \<noteq> 0 \<and> unat (needed_for 1000) \<le> MAX_BLOCKS \<and>
   unat (1000 :: size_t) \<le> length (replicate 1000 (67 :: u8)) \<and>
   block_map (free_blocks_from fs_two_files 0 0) ! blk fs_two_files 0 1 = 0 \<and>
   unat (free_blocks (free_blocks_from fs_two_files 0 0)) =
     unat (free_blocks fs_two_files) + nb fs_two_files 0 \<and>
   unat (free_blocks fs_two_files) + nb fs_two_files 0 < unat (needed_for 1000) \<and>
   fs_write fs_two_files (Some ''a'') (Some (replicate 1000 67)) 1000 3 =
     Some (fs_failed_write, Inl NoSpace) \<and>
   write_blocks_from (free_blocks_from fs_two_files 0 0) 0 (replicate 1000 67) 1000
     (needed_for 1000) 0 = Some (fs_failed_write, Inl NoSpace) \<and>
   free_blocks fs_failed_write = 0 \<and>
   block_map fs_failed_write ! blk fs_two_files 0 1 \<noteq> 0 \<and>
   blk fs_failed_write 0 ` {0..<unat (free_blocks fs_two_files) + nb fs_two_files 0} =
     {b. b < MAX_BLOCKS \<and> block_map fs_two_files ! b = 0} \<union> set (owned_blocks fs_two_files 0) \<and>
   fs_failed_write \<noteq> fs_two_files \<and>
   num_blocks (inodes fs_failed_write ! 0) = num_blocks (inodes fs_two_files ! 0) \<and>
   blocks fs_failed_write ! 0 = replicate 64 67"
proof -
  from two_files_facts have f: "find_by_name fs_two_files ''a'' = Some 0"
    and n: "1 < nb fs_two_files 0" and fb: "free_blocks fs_two_files \<noteq> 0"
    by (simp_all add: Let_def)
  have s: "(1000 :: size_t) \<noteq> 0" "unat (needed_for 1000) \<le> MAX_BLOCKS"
    by (simp_all add: needed_for_def BLOCK_SIZE_def MAX_BLOCKS_def MAX_FILE_SIZE_def)
  have len: "unat (1000 :: size_t) \<le> length (replicate 1000 (67 :: u8))" by simp
  from failed_write_facts have b0: "blocks fs_failed_write ! 0 = replicate 64 67"
    by (simp add: Let_def)
  note T = write_frees_before_allocating [OF reachable_two_files f s, of "replicate 1000 67" 3]
  from T have "\<forall>j < nb fs_two_files 0.
      block_map (free_blocks_from fs_two_files 0 0) ! blk fs_two_files 0 j = 0"
    by (rule conjunct1)
  with n have 1: "block_map (free_blocks_from fs_two_files 0 0) ! blk fs_two_files 0 1 = 0"
    by simp
  from T have 2: "unat (free_blocks (free_blocks_from fs_two_files 0 0)) =
      unat (free_blocks fs_two_files) + nb fs_two_files 0"
    by (rule conjunct2 [THEN conjunct1])
  let ?w = "fs_write fs_two_files (Some ''a'') (Some (replicate 1000 67)) 1000 3"
  let ?k = "unat (free_blocks fs_two_files) + nb fs_two_files 0"
  from T have "?w = Some (fs_failed_write, Inl NoSpace) \<longrightarrow>
      write_blocks_from (free_blocks_from fs_two_files 0 0) 0 (replicate 1000 67) 1000
        (needed_for 1000) 0 = Some (fs_failed_write, Inl NoSpace) \<and>
      ?k < unat (needed_for 1000) \<and>
      free_blocks fs_failed_write = 0 \<and>
      (\<forall>b < MAX_BLOCKS. block_map fs_failed_write ! b \<noteq> 0) \<and>
      (\<forall>j < nb fs_two_files 0. block_map fs_failed_write ! blk fs_two_files 0 j \<noteq> 0) \<and>
      blk fs_failed_write 0 ` {0..<?k} =
        {b. b < MAX_BLOCKS \<and> block_map fs_two_files ! b = 0} \<union> set (owned_blocks fs_two_files 0) \<and>
      (free_blocks fs_two_files \<noteq> 0 \<longrightarrow> fs_failed_write \<noteq> fs_two_files) \<and>
      num_blocks (inodes fs_failed_write ! 0) = num_blocks (inodes fs_two_files ! 0) \<and>
      size_i (inodes fs_failed_write ! 0) = size_i (inodes fs_two_files ! 0)"
    by (rule conjunct2 [THEN conjunct2, THEN conjunct2, THEN conjunct2, THEN spec])
  with failed_write_result fb n
  have 3: "write_blocks_from (free_blocks_from fs_two_files 0 0) 0 (replicate 1000 67) 1000
        (needed_for 1000) 0 = Some (fs_failed_write, Inl NoSpace)"
    "?k < unat (needed_for 1000)"
    "free_blocks fs_failed_write = 0"
    "block_map fs_failed_write ! blk fs_two_files 0 1 \<noteq> 0"
    "blk fs_failed_write 0 ` {0..<?k} =
        {b. b < MAX_BLOCKS \<and> block_map fs_two_files ! b = 0} \<union> set (owned_blocks fs_two_files 0)"
    "fs_failed_write \<noteq> fs_two_files"
    "num_blocks (inodes fs_failed_write ! 0) = num_blocks (inodes fs_two_files ! 0)"
    by blast+
  from reachable_two_files f s len 1 2 3(2) failed_write_result 3(1) 3(3-7) b0
  show ?thesis by (intro conjI)
qed

text \<open>
  C6 as stated fails. The pool has no free block, \<open>a\<close> owns block 0 and a write of 128
  bytes to \<open>a\<close>, which needs two blocks, begins with the 64 bytes that block 0 holds. The
  call frees block 0, allocates it again, copies the same bytes, finds no second block
  and fails with \<open>NoSpace\<close>: the old block is marked used, not free, and the state is
  the state before the call.
\<close>

theorem failed_write_state_unchanged:
  "reachable fs_full_pool \<and> find_by_name fs_full_pool ''a'' = Some 0 \<and>
   nb fs_full_pool 0 = 1 \<and> blk fs_full_pool 0 0 = 0 \<and> block_map fs_full_pool ! 0 = 1 \<and>
   free_blocks fs_full_pool = 0 \<and> unat (needed_for 128) = 2 \<and>
   fs_write fs_full_pool (Some ''a'') (Some (replicate 10 65 @ replicate 118 0)) 128 3 =
     Some (fs_full_pool, Inl NoSpace)"
  using reachable_full_pool full_pool_facts full_pool_write
  by (simp add: Let_def needed_for_def BLOCK_SIZE_def)

subsection \<open>C7: delete\<close>

text \<open>
  C7. \<^verbatim>\<open>fs_delete\<close> of a live file succeeds; \<^verbatim>\<open>free_blocks\<close> grows by exactly the
  file's \<^verbatim>\<open>num_blocks\<close> and each of its blocks is marked free; the inode slot is marked
  free, its record is all zero and \<^verbatim>\<open>free_inodes\<close> grows by 1; no live file has the name
  any more, and \<^verbatim>\<open>fs_create_file\<close> with the same name succeeds at once.
\<close>

theorem delete_releases_blocks_and_name:
  assumes r: "reachable fs" and found: "find_by_name fs fname = Some ino"
  shows "\<exists>fs'. fs_delete fs (Some fname) = (fs', Inr 0) \<and>
     unat (free_blocks fs') = unat (free_blocks fs) + nb fs ino \<and>
     (\<forall>j < nb fs ino. block_map fs' ! blk fs ino j = 0) \<and>
     inode_map fs' ! ino = 0 \<and> inodes fs' ! ino = zero_inode \<and>
     unat (free_inodes fs') = unat (free_inodes fs) + 1 \<and>
     find_by_name fs' fname = None \<and>
     (\<exists>fs'' k. fs_create_file fs' (Some fname) now = (fs'', Inr (int k)) \<and>
        live fs'' k \<and> name (inodes fs'' ! k) = fname)"
proof -
  from r have inv: "fs_inv fs" by (rule reachable_inv)
  then have sh: "shape fs" and co: "counts fs" and ow: "owns_with (nb fs) fs"
    and na: "names_ok fs" by (simp_all add: fs_inv_def)
  from found have l: "live fs ino" and nm: "name (inodes fs ! ino) = fname"
    by (simp_all add: find_by_name_Some)
  define fs1 where "fs1 = free_blocks_from fs ino 0"
  define fs' where "fs' = fs1\<lparr> inode_map := (inode_map fs1)[ino := 0],
        free_inodes := free_inodes fs1 + 1, inodes := (inodes fs1)[ino := zero_inode] \<rparr>"
  have res: "fs_delete fs (Some fname) = (fs', Inr 0)"
    using found by (simp add: fs_delete_def fs'_def fs1_def Let_def)
  then have "fst (fs_delete fs (Some fname)) = fs'" by simp
  with fs_delete_inv [OF inv, of "Some fname"] have inv': "fs_inv fs'" by simp
  then have sh': "shape fs'" and co': "counts fs'" by (simp_all add: fs_inv_def)
  note F = free_phase [OF inv l, folded fs1_def]
  note L = shape_lengths [OF sh]
  from l sh have il: "ino < MAX_FILES" by (rule live_less [rotated])
  from l have used: "inode_map fs ! ino \<noteq> 0" by (simp add: live_def)
  have bm': "block_map fs' = zero_at (owned_blocks fs ino) (block_map fs)"
    and im': "inode_map fs' = (inode_map fs)[ino := 0]"
    and in': "inodes fs' = (inodes fs)[ino := zero_inode]"
    and ti': "total_inodes fs' = total_inodes fs"
    by (simp_all add: fs'_def F fs1_def free_blocks_from_0)
  have 1: "unat (free_blocks fs') = unat (free_blocks fs) + nb fs ino"
    using co' co F(5) by (simp add: counts_def bm' F(6))
  have 2: "\<forall>j < nb fs ino. block_map fs' ! blk fs ino j = 0"
  proof (intro allI impI)
    fix j assume j: "j < nb fs ino"
    with owns_with_used [OF ow l j] L show "block_map fs' ! blk fs ino j = 0"
      by (auto simp add: bm' nth_zero_at set_owned_blocks)
  qed
  have 3: "inode_map fs' ! ino = 0" "inodes fs' ! ino = zero_inode"
    using il L by (simp_all add: im' in')
  have 4: "unat (free_inodes fs') = unat (free_inodes fs) + 1"
    using co' co il L used by (simp add: counts_def im' count_free_set_zero)
  have live': "\<And>i. live fs' i \<longleftrightarrow> live fs i \<and> i \<noteq> ino"
    using il L by (auto simp add: live_def im' ti' nth_list_update)
  have nm': "\<And>i. i \<noteq> ino \<Longrightarrow> name (inodes fs' ! i) = name (inodes fs ! i)"
    by (simp add: in')
  have none: "\<forall>j. \<not> (live fs' j \<and> name (inodes fs' ! j) = fname)"
  proof (intro allI notI)
    fix j assume "live fs' j \<and> name (inodes fs' ! j) = fname"
    then have "live fs j" "j \<noteq> ino" "name (inodes fs ! j) = name (inodes fs ! ino)"
      by (auto simp add: live' nm' nm)
    with na l show False unfolding names_ok_def by blast
  qed
  then have 5: "find_by_name fs' fname = None" by (simp add: find_by_name_None)
  from na l nm have short: "length fname < MAX_FILENAME"
    unfolding names_ok_def by blast
  obtain fs2 rk where f: "find_free_inode fs' = (fs2, rk)" by (cases "find_free_inode fs'")
  have "rk \<noteq> None"
  proof
    assume "rk = None"
    with f have "\<forall>j < unat (total_inodes fs'). inode_map fs' ! j \<noteq> 0"
      by (simp add: find_free_inode_None)
    with il L 3(1) show False by (simp add: ti')
  qed
  then obtain k where rk: "rk = Some k" by auto
  with f have k: "k < unat (total_inodes fs')" "inode_map fs' ! k = 0"
    and fs2: "fs2 = fs'\<lparr> inode_map := (inode_map fs')[k := 1], free_inodes := free_inodes fs' - 1 \<rparr>"
    by (simp_all add: find_free_inode_Some)
  define fs'' where "fs'' = fs2\<lparr> inodes := (inodes fs2)[k :=
      (inodes fs2 ! k)\<lparr> name := take (MAX_FILENAME - 1) fname, size_i := 0, num_blocks := 0,
        created := now, modified := now, is_directory := 0 \<rparr>] \<rparr>"
  have cr: "fs_create_file fs' (Some fname) now = (fs'', Inr (int k))"
    using short 5 f rk by (simp add: fs_create_file_def fs''_def)
  from k shape_lengths [OF sh'] have kl: "k < length (inode_map fs')" "k < length (inodes fs')"
    by simp_all
  have 6: "live fs'' k" "name (inodes fs'' ! k) = fname"
    using k kl short by (simp_all add: fs''_def fs2 live_def)
  from res 1 2 3 4 5 cr 6 show ?thesis by blast
qed

text \<open>Deleting \<open>b\<close>, which holds 10 blocks, from the filesystem with the two files.\<close>

theorem delete_releases_blocks_and_name_witness:
  "reachable fs_two_files \<and> find_by_name fs_two_files ''b'' = Some 1 \<and>
   nb fs_two_files 1 = 10 \<and>
   (\<exists>fs'. fs_delete fs_two_files (Some ''b'') = (fs', Inr 0) \<and>
      unat (free_blocks fs') = unat (free_blocks fs_two_files) + nb fs_two_files 1 \<and>
      inode_map fs' ! 1 = 0 \<and> inodes fs' ! 1 = zero_inode \<and>
      unat (free_inodes fs') = unat (free_inodes fs_two_files) + 1 \<and>
      find_by_name fs' ''b'' = None \<and>
      (\<exists>fs'' k. fs_create_file fs' (Some ''b'') 5 = (fs'', Inr (int k))))"
proof -
  from two_files_facts have f: "find_by_name fs_two_files ''b'' = Some 1"
    and n: "nb fs_two_files 1 = 10"
    by (simp_all add: Let_def)
  from delete_releases_blocks_and_name [OF reachable_two_files f, of 5] reachable_two_files f n
  show ?thesis by blast
qed

subsection \<open>C8: first-fit allocation\<close>

text \<open>
  C8. \<^verbatim>\<open>find_free_block\<close> and \<^verbatim>\<open>find_free_inode\<close> are first-fit: the result is the
  index \<open>k\<close> exactly when entry \<open>k\<close> of the used-map is 0 and every entry below \<open>k\<close> is
  not, and then entry \<open>k\<close> is set to 1 and the free counter is decremented; the result is
  empty exactly when no entry below the total is 0, and then nothing changes. The result
  is a function of the state, so the same state gives the same index.
\<close>

theorem allocation_first_fit:
  "(find_free_block fs = (fs', r) \<longleftrightarrow>
      (case r of
         Some k \<Rightarrow> k < unat (total_blocks fs) \<and> block_map fs ! k = 0 \<and>
           (\<forall>j<k. block_map fs ! j \<noteq> 0) \<and>
           fs' = fs\<lparr> block_map := (block_map fs)[k := 1], free_blocks := free_blocks fs - 1 \<rparr>
       | None \<Rightarrow> (\<forall>j < unat (total_blocks fs). block_map fs ! j \<noteq> 0) \<and> fs' = fs)) \<and>
   (find_free_inode fs = (fs', r) \<longleftrightarrow>
      (case r of
         Some k \<Rightarrow> k < unat (total_inodes fs) \<and> inode_map fs ! k = 0 \<and>
           (\<forall>j<k. inode_map fs ! j \<noteq> 0) \<and>
           fs' = fs\<lparr> inode_map := (inode_map fs)[k := 1], free_inodes := free_inodes fs - 1 \<rparr>
       | None \<Rightarrow> (\<forall>j < unat (total_inodes fs). inode_map fs ! j \<noteq> 0) \<and> fs' = fs))"
proof (cases r)
  case None
  then show ?thesis
    by (simp add: find_free_block_None find_free_inode_None)
next
  case (Some k)
  then show ?thesis
    by (simp add: find_free_block_Some find_free_inode_Some)
qed

text \<open>
  On the fresh filesystem the first block handed out is block 0; once inode 0 is taken
  by the file \<open>f\<close>, the next inode handed out is inode 1.
\<close>

theorem allocation_first_fit_witness:
  "find_free_block new_filesystem =
     (new_filesystem\<lparr> block_map := (block_map new_filesystem)[0 := 1],
        free_blocks := free_blocks new_filesystem - 1 \<rparr>, Some 0) \<and>
   find_free_inode fs_with_f =
     (fs_with_f\<lparr> inode_map := (inode_map fs_with_f)[1 := 1],
        free_inodes := free_inodes fs_with_f - 1 \<rparr>, Some 1)"
proof -
  have b: "unat (total_blocks new_filesystem) = 16" "block_map new_filesystem ! 0 = 0"
    by (simp_all add: eval_rules)
  have i: "unat (total_inodes fs_with_f) = 256" "inode_map fs_with_f ! 1 = 0"
    "inode_map fs_with_f ! 0 \<noteq> 0"
    by (simp_all add: fs_with_f_def eval_rules)
  from allocation_first_fit [of new_filesystem _ "Some 0"] b
  have 1: "find_free_block new_filesystem =
     (new_filesystem\<lparr> block_map := (block_map new_filesystem)[0 := 1],
        free_blocks := free_blocks new_filesystem - 1 \<rparr>, Some 0)"
    by simp
  from allocation_first_fit [of fs_with_f _ "Some 1"] i
  have 2: "find_free_inode fs_with_f =
     (fs_with_f\<lparr> inode_map := (inode_map fs_with_f)[1 := 1],
        free_inodes := free_inodes fs_with_f - 1 \<rparr>, Some 1)"
    by simp
  from 1 2 show ?thesis by simp
qed

subsection \<open>C9: blocks leaked by a failed write\<close>

text \<open>
  C9. Let \<^verbatim>\<open>fs_write\<close> fail with \<open>NoSpace\<close> on an inode with \<open>n\<close> = \<^verbatim>\<open>num_blocks\<close> blocks
  while \<open>F\<close> = \<^verbatim>\<open>free_blocks\<close> blocks were free. The call has then allocated \<open>k = F + n\<close>
  blocks, fewer than it needed, and \<^verbatim>\<open>num_blocks\<close> is unchanged. Every block recorded at
  a position \<open>j\<close> with \<open>n \<le> j < k\<close> of the inode's block array is marked used and is not
  among the first \<^verbatim>\<open>num_blocks\<close> entries of any live inode, and the same holds in every
  state that any later sequence of operations reaches: the block is never freed.
\<close>

theorem failed_write_leaks_blocks:
  assumes r: "reachable fs"
    and w: "fs_write fs (Some fname) (Some d) sz now = Some (fs', Inl NoSpace)"
    and found: "find_by_name fs fname = Some ino"
    and j: "nb fs ino \<le> j" "j < unat (free_blocks fs) + nb fs ino"
    and later: "run fs' xs = Some fs''"
  shows "nb fs' ino = nb fs ino \<and>
     unat (free_blocks fs) + nb fs ino < unat (needed_for sz) \<and>
     blk fs' ino j < unat (total_blocks fs') \<and>
     block_map fs' ! blk fs' ino j \<noteq> 0 \<and> blk fs' ino j \<notin> set (all_owned fs') \<and>
     block_map fs'' ! blk fs' ino j \<noteq> 0 \<and> blk fs' ino j \<notin> set (all_owned fs'')"
proof -
  from r have inv: "fs_inv fs" by (rule reachable_inv)
  then have co: "counts fs" by (simp add: fs_inv_def)
  from inv w have inv': "fs_inv fs'" by (rule fs_write_inv)
  from found have l: "live fs ino" by (simp add: find_by_name_Some)
  from w have run: "sz \<noteq> 0" "unat (needed_for sz) \<le> MAX_BLOCKS"
    using found by (cases rule: fs_write_dichotomy; simp)+
  note R = fs_write_run [OF inv w found run]
  let ?k = "unat (free_blocks fs) + nb fs ino"
  from co have k: "count_free (block_map fs) + nb fs ino = ?k" by (simp add: counts_def)
  from R(5) have ow: "owns_with ((nb fs)(ino := ?k)) fs'" by (simp add: k)
  from R(4) l have l': "live fs' ino" by simp
  from R(6) have nb': "nb fs' = nb fs" by (simp add: fun_eq_iff)
  from j have jk: "j < ((nb fs)(ino := ?k)) ino" by simp
  from owns_with_used [OF ow l' jk] R(1)
  have b: "blk fs' ino j < MAX_BLOCKS" "blk fs' ino j < unat (total_blocks fs')"
    "block_map fs' ! blk fs' ino j \<noteq> 0"
    by (simp_all add: shape_def)
  have no: "\<not> owned fs' (blk fs' ino j)"
  proof
    assume "owned fs' (blk fs' ino j)"
    then obtain i' j' where o: "live fs' i'" "j' < nb fs' i'" "blk fs' i' j' = blk fs' ino j"
      by (auto simp add: owned_def)
    from o(2) j have "j' < ((nb fs)(ino := ?k)) i'" by (auto simp add: nb')
    from owns_with_inj [OF ow o(1) l' this jk o(3)] o(2) j(1) show False
      by (simp add: nb')
  qed
  from leak_run [OF later inv' b(1) b(3) no]
  have "block_map fs'' ! blk fs' ino j \<noteq> 0" "\<not> owned fs'' (blk fs' ino j)" by simp_all
  with b no nb' R(13) k show ?thesis
    by (simp add: owned_iff_all_owned)
qed

text \<open>
  After the failing write to \<open>a\<close>, entry 2 of its block array is block 12. It is still
  marked used after both files have been deleted, and then only 12 blocks are free.
\<close>

theorem failed_write_leaks_blocks_witness:
  "reachable fs_two_files \<and>
   fs_write fs_two_files (Some ''a'') (Some (replicate 1000 67)) 1000 3 =
     Some (fs_failed_write, Inl NoSpace) \<and>
   find_by_name fs_two_files ''a'' = Some 0 \<and>
   nb fs_two_files 0 \<le> 2 \<and> 2 < unat (free_blocks fs_two_files) + nb fs_two_files 0 \<and>
   run fs_failed_write [Delete (Some ''a''), Delete (Some ''b'')] = Some fs_emptied \<and>
   blk fs_failed_write 0 2 = 12 \<and>
   nb fs_failed_write 0 = nb fs_two_files 0 \<and>
   block_map fs_failed_write ! 12 \<noteq> 0 \<and> 12 \<notin> set (all_owned fs_failed_write) \<and>
   block_map fs_emptied ! 12 \<noteq> 0 \<and> 12 \<notin> set (all_owned fs_emptied) \<and>
   free_blocks fs_emptied = 12"
proof -
  from two_files_facts have f: "find_by_name fs_two_files ''a'' = Some 0"
    and j: "nb fs_two_files 0 \<le> 2" "2 < unat (free_blocks fs_two_files) + nb fs_two_files 0"
    by (simp_all add: Let_def)
  have l: "run fs_failed_write [Delete (Some ''a''), Delete (Some ''b'')] = Some fs_emptied"
    by (simp add: fs_emptied_def)
  from failed_write_facts have b: "blk fs_failed_write 0 2 = 12"
    by (simp add: Let_def)
  have e: "free_blocks fs_emptied = 12"
    by (simp add: fs_emptied_def fs_failed_write_def fs_two_files_def two_files_ops_def
        eval_rules)
  from failed_write_leaks_blocks [OF reachable_two_files failed_write_result f j l]
    reachable_two_files failed_write_result f j l b e
  show ?thesis by simp
qed

subsection \<open>C10: the size of the pool\<close>

text \<open>
  C10. \<^verbatim>\<open>fs_create\<close> sets \<^verbatim>\<open>total_blocks\<close> to \<^verbatim>\<open>MAX_FILE_SIZE / BLOCK_SIZE\<close> = 16 =
  \<^verbatim>\<open>MAX_BLOCKS\<close> and allocates that many blocks, next to 256 inodes. In every reachable
  state the sum of \<^verbatim>\<open>num_blocks\<close> over the live inodes is at most 16. A write of
  \<^verbatim>\<open>MAX_FILE_SIZE\<close> bytes that succeeds leaves no block free: the file owns all 16. When
  every block is free or the file's own, as it is for a single file, such a write succeeds.
\<close>

theorem pool_holds_one_full_file:
  "total_blocks new_filesystem = of_nat (MAX_FILE_SIZE div BLOCK_SIZE) \<and>
   MAX_FILE_SIZE div BLOCK_SIZE = 16 \<and> MAX_BLOCKS = 16 \<and> MAX_FILES = 256 \<and>
   length (blocks new_filesystem) = MAX_BLOCKS \<and> length (inodes new_filesystem) = MAX_FILES \<and>
   (reachable fs \<longrightarrow>
      total_owned fs \<le> 16 \<and> length (blocks fs) = MAX_BLOCKS \<and> length (inodes fs) = MAX_FILES) \<and>
   (reachable fs \<longrightarrow>
      fs_write fs (Some fname) (Some d) (of_nat MAX_FILE_SIZE) now = Some (fs', Inr v) \<longrightarrow>
      free_blocks fs' = 0 \<and> (\<forall>b < MAX_BLOCKS. block_map fs' ! b \<noteq> 0) \<and>
      (\<exists>i. find_by_name fs fname = Some i \<and> nb fs' i = MAX_BLOCKS)) \<and>
   (reachable fs \<longrightarrow> find_by_name fs fname = Some ino \<longrightarrow>
      unat (free_blocks fs) + nb fs ino = MAX_BLOCKS \<longrightarrow> MAX_FILE_SIZE \<le> length d \<longrightarrow>
      (\<exists>fs1. fs_write fs (Some fname) (Some d) (of_nat MAX_FILE_SIZE) now =
                Some (fs1, Inr (int MAX_FILE_SIZE)) \<and>
         free_blocks fs1 = 0 \<and> nb fs1 ino = MAX_BLOCKS))"
proof -
  have new: "total_blocks new_filesystem = of_nat (MAX_FILE_SIZE div BLOCK_SIZE)"
    "MAX_FILE_SIZE div BLOCK_SIZE = 16" "MAX_BLOCKS = 16" "MAX_FILES = 256"
    "length (blocks new_filesystem) = MAX_BLOCKS" "length (inodes new_filesystem) = MAX_FILES"
    by (simp_all add: new_filesystem_def MAX_FILE_SIZE_def BLOCK_SIZE_def MAX_BLOCKS_def
        MAX_FILES_def)
  have sum: "total_owned fs \<le> 16 \<and> length (blocks fs) = MAX_BLOCKS \<and>
      length (inodes fs) = MAX_FILES" if "reachable fs"
  proof -
    from that have "fs_inv fs" by (rule reachable_inv)
    then have sh: "shape fs" and ow: "owns_with (nb fs) fs" by (simp_all add: fs_inv_def)
    from total_owned_le [OF sh ow] shape_lengths [OF sh] show ?thesis
      by (simp add: MAX_BLOCKS_16)
  qed
  have full: "free_blocks fs' = 0 \<and> (\<forall>b < MAX_BLOCKS. block_map fs' ! b \<noteq> 0) \<and>
      (\<exists>i. find_by_name fs fname = Some i \<and> nb fs' i = MAX_BLOCKS)"
    if r: "reachable fs"
      and w: "fs_write fs (Some fname) (Some d) (of_nat MAX_FILE_SIZE) now = Some (fs', Inr v)"
    for fs' v
  proof -
    from r have inv: "fs_inv fs" by (rule reachable_inv)
    from w show ?thesis
    proof (cases rule: fs_write_dichotomy)
      case early
      then show ?thesis by simp
    next
      case (run fname' d' i)
      then have found: "find_by_name fs fname = Some i" by simp
      note R = fs_write_run [OF inv w found run(3,5)]
      from found have "live fs i" by (simp add: find_by_name_Some)
      with R(4) have l: "live fs' i" by simp
      have c: "((nb fs)(i := case Inr v of
          Inl e \<Rightarrow> count_free (block_map fs) + nb fs i
        | Inr v \<Rightarrow> unat (needed_for (of_nat MAX_FILE_SIZE)))) i = MAX_BLOCKS"
        by (simp add: needed_for_max)
      from inode_owns_all [OF R(1) R(2) R(5) l c] R(6) found show ?thesis
        by (simp add: needed_for_max)
    qed
  qed
  have single: "\<exists>fs1. fs_write fs (Some fname) (Some d) (of_nat MAX_FILE_SIZE) now =
                Some (fs1, Inr (int MAX_FILE_SIZE)) \<and>
         free_blocks fs1 = 0 \<and> nb fs1 ino = MAX_BLOCKS"
    if r: "reachable fs" and found: "find_by_name fs fname = Some ino"
      and own: "unat (free_blocks fs) + nb fs ino = MAX_BLOCKS"
      and len: "MAX_FILE_SIZE \<le> length d"
  proof -
    from r have inv: "fs_inv fs" by (rule reachable_inv)
    have nz: "(of_nat MAX_FILE_SIZE :: size_t) \<noteq> 0"
      and v: "sint (ucast (of_nat MAX_FILE_SIZE :: size_t) :: 32 word) = int MAX_FILE_SIZE"
      and u: "unat (of_nat MAX_FILE_SIZE :: size_t) = MAX_FILE_SIZE"
      by (simp_all add: MAX_FILE_SIZE_def)
    from len u have d: "unat (of_nat MAX_FILE_SIZE :: size_t) \<le> length d" by simp
    have fit: "unat (needed_for (of_nat MAX_FILE_SIZE)) \<le> MAX_BLOCKS"
      by (simp add: needed_for_max)
    from fs_write_result [OF inv found nz fit d, of now] own
    obtain fs1 where w: "fs_write fs (Some fname) (Some d) (of_nat MAX_FILE_SIZE) now =
        Some (fs1, Inr (int MAX_FILE_SIZE))"
      by (auto simp add: needed_for_max v)
    from full [OF r w] found have "free_blocks fs1 = 0" "nb fs1 ino = MAX_BLOCKS" by auto
    with w show ?thesis by blast
  qed
  from new sum full single show ?thesis by blast
qed

text \<open>Writing 1024 bytes to the only file of a fresh filesystem succeeds and takes every block.\<close>

theorem pool_holds_one_full_file_witness:
  "reachable fs_with_f \<and> find_by_name fs_with_f ''f'' = Some 0 \<and>
   unat (free_blocks fs_with_f) + nb fs_with_f 0 = MAX_BLOCKS \<and>
   MAX_FILE_SIZE \<le> length (replicate 1024 (65 :: u8)) \<and>
   fs_write fs_with_f (Some ''f'') (Some (replicate 1024 65)) (of_nat MAX_FILE_SIZE) 0 =
     Some (fs_f_written 1024, Inr (int MAX_FILE_SIZE)) \<and>
   free_blocks (fs_f_written 1024) = 0 \<and> nb (fs_f_written 1024) 0 = MAX_BLOCKS \<and>
   block_map (fs_f_written 1024) ! 15 \<noteq> 0 \<and>
   total_owned (fs_f_written 1024) \<le> 16"
proof -
  have f: "find_by_name fs_with_f ''f'' = Some 0"
    and o: "unat (free_blocks fs_with_f) + nb fs_with_f 0 = MAX_BLOCKS"
    by (simp_all add: fs_with_f_def nb_def eval_rules)
  have len: "MAX_FILE_SIZE \<le> length (replicate 1024 (65 :: u8))"
    by (simp add: MAX_FILE_SIZE_def)
  note T = pool_holds_one_full_file [where fs = fs_with_f and fname = "''f''"
      and d = "replicate 1024 65" and now = 0 and ino = 0]
  from T [where fs' = fs_with_f and v = 0] reachable_with_f f o len
  obtain fs1 where w: "fs_write fs_with_f (Some ''f'') (Some (replicate 1024 65))
        (of_nat MAX_FILE_SIZE) 0 = Some (fs1, Inr (int MAX_FILE_SIZE))"
    and z: "free_blocks fs1 = 0" "nb fs1 0 = MAX_BLOCKS"
    by blast
  from w have e: "fs_f_written 1024 = fs1"
    by (simp add: fs_f_written_def MAX_FILE_SIZE_def)
  have r: "reachable (fs_f_written 1024)"
    by (rule reachable_step [OF reachable_with_f,
          of "Write (Some ''f'') (Some (replicate 1024 65)) (of_nat MAX_FILE_SIZE) 0"])
      (simp add: w e)
  have b: "(15 :: nat) < MAX_BLOCKS" by (simp add: MAX_BLOCKS_16)
  from T [where fs' = "fs_f_written 1024" and v = "int MAX_FILE_SIZE"] reachable_with_f w e b
  have u: "block_map (fs_f_written 1024) ! 15 \<noteq> 0" by blast
  from pool_holds_one_full_file [where fs = "fs_f_written 1024"] r
  have t: "total_owned (fs_f_written 1024) \<le> 16" by blast
  from reachable_with_f f o len w z u t show ?thesis
    by (simp add: e)
qed

end
